theory Spec2Isabelle
  imports Complex_Main "HOL-Library.AList" "HOL-Library.Sublist"
begin

section \<open>Mass spectra (rPTMDetermine/mass\_spectrum.py)\<close>

text \<open>
  Conventions of the embedding.
  \<^item> Python floats are modelled by exact rationals (\<^typ>\<open>rat\<close>): rounding, infinities and
    NaN are not represented. Every threshold of the source (0.1 Da, 100 Da) is the exact
    rational of its decimal literal.
  \<^item> A two-dimensional numpy array is \<open>NdArray c rs\<close>: the rows \<open>rs\<close>, each of length
    \<open>c\<close>; its shape is \<open>(length rs, c)\<close>.
  \<^item> Inside a \<open>Spectrum\<close> the array \<open>_peaks\<close> is a list of (mz, intensity) pairs, one
    per row. Arrays with a column count other than 2 are not peak lists; the constructor
    model marks them \<open>NotPeakPairs\<close> (a restriction of the model, not a Python error).
  \<^item> Every raise of the source is a value \<open>Inl e\<close>. \<open>NotPeakPairs\<close> and
    \<open>NonFiniteResult\<close> are not Python exceptions: they mark the two places where the
    embedding stops short of numpy (an array that is not two columns wide; a division of
    the intensities by a zero maximum, which numpy answers with inf or nan).
\<close>

datatype error =
    IndexError
  | ValueError
  | NotPeakPairs
  | NonFiniteResult
  | ModificationNotFoundException

type_synonym peak = "rat \<times> rat"

datatype ndarray = NdArray (ncols: nat) (rows: "rat list list")

record Spectrum =
  peaks :: "peak list"
  prec_mz :: rat
  charge :: "int option"
  retention_time :: "rat option"

text \<open>\<open>np.array(peak_list)\<close> for a rectangular nested list; numpy refuses a ragged one.\<close>

definition np_array :: "rat list list \<Rightarrow> error + ndarray" where
  "np_array xs =
     (case xs of
        [] \<Rightarrow> Inr (NdArray 0 [])
      | r # rs \<Rightarrow> if list_all (\<lambda>q. length q = length r) rs
                 then Inr (NdArray (length r) xs) else Inl ValueError)"

text \<open>\<open>a.T\<close>: column \<open>j\<close> of the array becomes row \<open>j\<close>.\<close>

definition transpose_arr :: "ndarray \<Rightarrow> ndarray" where
  "transpose_arr a =
     NdArray (length (rows a)) (map (\<lambda>j. map (\<lambda>r. r ! j) (rows a)) [0..<ncols a])"

definition row_to_peak :: "rat list \<Rightarrow> peak" where
  "row_to_peak r = (r ! 0, r ! 1)"

definition peak_to_row :: "peak \<Rightarrow> rat list" where
  "peak_to_row p = [fst p, snd p]"

text \<open>
  \<open>_mz_sort\<close>: \<open>self._peaks[self._peaks[:, 0].argsort()]\<close>. The order numpy gives to rows
  of equal mz is not fixed by the source; the model keeps their input order.
\<close>

definition mz_sort :: "peak list \<Rightarrow> peak list" where
  "mz_sort ps = sort_key fst ps"

text \<open>
  \<open>Spectrum.__init__\<close>, after \<open>np.array\<close>: an array whose first dimension is 2 is
  transposed; \<open>_mz_sort\<close> reads column 0 and raises IndexError when there is none.
\<close>

definition Spectrum_init :: "ndarray \<Rightarrow> rat \<Rightarrow> int option \<Rightarrow> rat option \<Rightarrow> error + Spectrum" where
  "Spectrum_init arr pmz ch rt =
     (let a = (if length (rows arr) = 2 then transpose_arr arr else arr) in
      if ncols a = 0 then Inl IndexError
      else if ncols a \<noteq> 2 then Inl NotPeakPairs
      else Inr \<lparr>peaks = mz_sort (map row_to_peak (rows a)),
                prec_mz = pmz, charge = ch, retention_time = rt\<rparr>)"

text \<open>The constructor called with a Python list of lists.\<close>

definition Spectrum_of_list :: "rat list list \<Rightarrow> rat \<Rightarrow> int option \<Rightarrow> rat option \<Rightarrow> error + Spectrum" where
  "Spectrum_of_list peak_list pmz ch rt =
     (case np_array peak_list of
        Inl e \<Rightarrow> Inl e
      | Inr arr \<Rightarrow> Spectrum_init arr pmz ch rt)"

definition mz_ascending :: "Spectrum \<Rightarrow> bool" where
  "mz_ascending s = sorted (map fst (peaks s))"

subsection \<open>remove\_itraq\<close>

text \<open>
  \<open>(np.abs(np.subtract.outer(mz, ITRAQ_MASSES)) > tol).all(1)\<close> is a boolean mask with
  one entry per peak; indexing the array with it keeps the rows whose entry is true.
  \<open>ITRAQ_MASSES\<close> lives in the constants module and is a parameter here.
\<close>

definition itraq_mask :: "rat list \<Rightarrow> rat \<Rightarrow> peak list \<Rightarrow> bool list" where
  "itraq_mask itraq_masses tol ps =
     map (\<lambda>p. list_all (\<lambda>m. \<bar>fst p - m\<bar> > tol) itraq_masses) ps"

definition mask_select :: "'a list \<Rightarrow> bool list \<Rightarrow> 'a list" where
  "mask_select xs bs = map fst (filter snd (zip xs bs))"

definition remove_itraq :: "rat list \<Rightarrow> rat \<Rightarrow> Spectrum \<Rightarrow> Spectrum" where
  "remove_itraq itraq_masses tol s =
     s\<lparr>peaks := mask_select (peaks s) (itraq_mask itraq_masses tol (peaks s))\<rparr>"

lemma mask_select_map: "mask_select xs (map P xs) = filter P xs"
  by (induction xs) (simp_all add: mask_select_def)

lemma remove_itraq_filter:
  "peaks (remove_itraq ms tol s) = filter (\<lambda>p. list_all (\<lambda>m. \<bar>fst p - m\<bar> > tol) ms) (peaks s)"
  by (simp add: remove_itraq_def itraq_mask_def mask_select_map)

text \<open>
  C6. remove\_itraq keeps, in their order, exactly the peaks whose mz differs from every
  reference mass by strictly more than the tolerance: a peak of the result is a peak of the
  input that is farther than \<open>tol\<close> from every reference mass, a peak of the input is
  absent from the result iff some reference mass lies within \<open>tol\<close> of it, and the result
  is a subsequence of the input.
\<close>

theorem remove_itraq_retains_iff:
  "peaks (remove_itraq ms tol s) = filter (\<lambda>p. \<forall>m \<in> set ms. \<bar>fst p - m\<bar> > tol) (peaks s)
   \<and> (\<forall>p \<in> set (peaks s).
        (p \<in> set (peaks (remove_itraq ms tol s)) \<longleftrightarrow> (\<forall>m \<in> set ms. \<bar>fst p - m\<bar> > tol))
      \<and> (p \<notin> set (peaks (remove_itraq ms tol s)) \<longleftrightarrow> (\<exists>m \<in> set ms. \<bar>fst p - m\<bar> \<le> tol)))
   \<and> subseq (peaks (remove_itraq ms tol s)) (peaks s)"
proof -
  have eq: "peaks (remove_itraq ms tol s)
            = filter (\<lambda>p. \<forall>m \<in> set ms. \<bar>fst p - m\<bar> > tol) (peaks s)"
    by (simp add: remove_itraq_filter list_all_iff)
  have mem: "\<forall>p \<in> set (peaks s).
        (p \<in> set (peaks (remove_itraq ms tol s)) \<longleftrightarrow> (\<forall>m \<in> set ms. \<bar>fst p - m\<bar> > tol))
      \<and> (p \<notin> set (peaks (remove_itraq ms tol s)) \<longleftrightarrow> (\<exists>m \<in> set ms. \<bar>fst p - m\<bar> \<le> tol))"
    unfolding eq by (auto simp: not_less)
  have sub: "subseq (peaks (remove_itraq ms tol s)) (peaks s)"
    unfolding eq by simp
  from eq mem sub show ?thesis by blast
qed

theorem remove_itraq_retains_iff_witness:
  "peaks (remove_itraq [114, 115] (1/10)
            \<lparr>peaks = [(100, 5), (11405/100, 7), (116, 2)], prec_mz = 500, charge = Some 2,
             retention_time = None\<rparr>)
   = [(100, 5), (116, 2)]"
proof -
  let ?s = "\<lparr>peaks = [(100, 5), (11405/100, 7), (116, 2)], prec_mz = 500, charge = Some 2,
             retention_time = None\<rparr> :: Spectrum"
  from remove_itraq_retains_iff [of "[114, 115]" "1/10" ?s]
  have "peaks (remove_itraq [114, 115] (1/10) ?s)
        = filter (\<lambda>p. \<forall>m \<in> set [114, 115]. \<bar>fst p - m\<bar> > 1/10) (peaks ?s)"
    by blast
  then show ?thesis by simp
qed

subsection \<open>denoise\<close>

text \<open>\<open>int(x)\<close> on a float truncates toward zero.\<close>

definition py_int_of_float :: "rat \<Rightarrow> int" where
  "py_int_of_float x = (if 0 \<le> x then \<lfloor>x\<rfloor> else \<lceil>x\<rceil>)"

text \<open>
  \<open>for end_idx in range(start_idx, npeaks): if self._peaks[end_idx][0] > max_mass: break\<close>.
  The loop variable keeps the value of the last iteration that ran: the index that broke
  the loop, or the last index of the range when no peak exceeded \<open>max_mass\<close>; over an
  empty range it keeps the value it had before (the last argument).
\<close>

fun for_end_idx :: "peak list \<Rightarrow> rat \<Rightarrow> nat list \<Rightarrow> nat \<Rightarrow> nat" where
  "for_end_idx ps max_mass [] end_idx = end_idx"
| "for_end_idx ps max_mass (i # rest) end_idx =
     (if fst (ps ! i) > max_mass then i else for_end_idx ps max_mass rest i)"

text \<open>
  \<open>sorted(list(range(start_idx, end_idx)), key=lambda ii: self._peaks[ii][1], reverse=True)\<close>:
  Python's sort is stable, also with \<open>reverse=True\<close>, and so is \<open>sort_key\<close>.
\<close>

definition window_peaks :: "peak list \<Rightarrow> nat \<Rightarrow> nat \<Rightarrow> nat list" where
  "window_peaks ps start_idx end_idx = sort_key (\<lambda>ii. - snd (ps ! ii)) [start_idx..<end_idx]"

text \<open>\<open>sum(ion_scores[:idx])\<close>: the number of annotated peaks among the first \<open>idx\<close>.\<close>

definition annotated_count :: "bool list \<Rightarrow> nat \<Rightarrow> nat" where
  "annotated_count ion_scores idx = length (filter id (take idx ion_scores))"

definition sum_scores :: "bool list \<Rightarrow> int \<Rightarrow> nat list" where
  "sum_scores ion_scores max_peaks_per_window =
     map (annotated_count ion_scores)
         [1..<nat (min (int (length ion_scores) + 1) (max_peaks_per_window + 1))]"

fun max_list :: "nat list \<Rightarrow> nat" where
  "max_list [] = 0"
| "max_list [x] = x"
| "max_list (x # y # ys) = max x (max_list (y # ys))"

text \<open>\<open>xs.index(v)\<close> for a value that occurs in \<open>xs\<close>: the position of its first occurrence.\<close>

definition index_of :: "nat list \<Rightarrow> nat \<Rightarrow> nat" where
  "index_of xs v = length (takeWhile (\<lambda>x. x \<noteq> v) xs)"

text \<open>
  The ranking branch of one window: the indices appended to \<open>new_peaks\<close>.
  \<open>assigned_peaks[idx]\<close> raises IndexError beyond the flag list, and \<open>max\<close> of an empty
  \<open>sum_scores\<close> raises ValueError.
\<close>

definition window_retained :: "peak list \<Rightarrow> bool list \<Rightarrow> int \<Rightarrow> nat \<Rightarrow> nat \<Rightarrow> error + nat list" where
  "window_retained ps assigned_peaks max_peaks_per_window start_idx end_idx =
     (let wp = window_peaks ps start_idx end_idx in
      if list_ex (\<lambda>idx. length assigned_peaks \<le> idx) wp then Inl IndexError
      else
        let ion_scores = map (\<lambda>idx. assigned_peaks ! idx) wp;
            ss = sum_scores ion_scores max_peaks_per_window
        in if ss = [] then Inl ValueError
           else Inr (take (index_of ss (max_list ss) + 1) wp))"

text \<open>
  One iteration of \<open>for window in range(n_windows)\<close>. The state is
  \<open>(start_idx, end_idx, new_peaks)\<close>.
\<close>

definition denoise_window ::
  "peak list \<Rightarrow> bool list \<Rightarrow> int \<Rightarrow> nat \<Rightarrow> nat \<times> nat \<times> nat list \<Rightarrow> error + nat \<times> nat \<times> nat list" where
  "denoise_window ps assigned_peaks max_peaks_per_window window st =
     (case st of (start_idx, prev_end, new_peaks) \<Rightarrow>
        let max_mass = fst (ps ! 0) + (of_nat window + 1) * 100;
            end_idx = for_end_idx ps max_mass [start_idx..<length ps] prev_end
        in if end_idx = start_idx then
             (if length ps \<le> end_idx then Inl IndexError
              else if fst (ps ! end_idx) \<le> max_mass then
                (if length assigned_peaks \<le> end_idx then Inl IndexError
                 else if assigned_peaks ! end_idx
                      then Inr (start_idx, end_idx, new_peaks @ [end_idx])
                      else Inr (start_idx, end_idx, new_peaks))
              else Inr (start_idx, end_idx, new_peaks))
           else
             (case window_retained ps assigned_peaks max_peaks_per_window start_idx end_idx of
                Inl e \<Rightarrow> Inl e
              | Inr kept \<Rightarrow> Inr (end_idx, end_idx, new_peaks @ kept)))"

fun denoise_loop ::
  "peak list \<Rightarrow> bool list \<Rightarrow> int \<Rightarrow> nat list \<Rightarrow> nat \<times> nat \<times> nat list \<Rightarrow> error + nat \<times> nat \<times> nat list" where
  "denoise_loop ps assigned_peaks max_peaks_per_window [] st = Inr st"
| "denoise_loop ps assigned_peaks max_peaks_per_window (window # ws) st =
     (case denoise_window ps assigned_peaks max_peaks_per_window window st of
        Inl e \<Rightarrow> Inl e
      | Inr st' \<Rightarrow> denoise_loop ps assigned_peaks max_peaks_per_window ws st')"

text \<open>
  \<open>Spectrum.denoise\<close>. \<open>self._peaks[-1]\<close> raises IndexError on an empty spectrum. The
  result is built by the constructor from \<open>self._peaks[new_peaks, :]\<close>, an array with two
  columns and one row per retained index; no retention time is passed on.
\<close>

definition denoise :: "Spectrum \<Rightarrow> bool list \<Rightarrow> int \<Rightarrow> error + nat list \<times> Spectrum" where
  "denoise s assigned_peaks max_peaks_per_window =
     (let ps = peaks s in
      if ps = [] then Inl IndexError
      else
        let n_windows = py_int_of_float ((fst (last ps) - fst (hd ps)) / 100) + 1 in
        case denoise_loop ps assigned_peaks max_peaks_per_window [0..<nat n_windows] (0, 0, []) of
          Inl e \<Rightarrow> Inl e
        | Inr (start_idx, end_idx, new_peaks) \<Rightarrow>
            if list_ex (\<lambda>idx. length ps \<le> idx) new_peaks then Inl IndexError
            else
              (case Spectrum_init (NdArray 2 (map (\<lambda>idx. peak_to_row (ps ! idx)) new_peaks))
                      (prec_mz s) (charge s) None of
                 Inl e \<Rightarrow> Inl e
               | Inr s' \<Rightarrow> Inr (new_peaks, s')))"

text \<open>The number of annotated peaks among the given peak indices (the words of the specification).\<close>

definition annotated_in :: "bool list \<Rightarrow> nat list \<Rightarrow> nat" where
  "annotated_in assigned_peaks idxs = length (filter (\<lambda>idx. assigned_peaks ! idx) idxs)"

lemma max_list_mem: "xs \<noteq> [] \<Longrightarrow> max_list xs \<in> set xs"
  by (induction xs rule: max_list.induct) (auto simp: max_def)

lemma max_list_ge: "x \<in> set xs \<Longrightarrow> x \<le> max_list xs"
  by (induction xs rule: max_list.induct) (auto simp: max_def)

lemma index_of_less: "v \<in> set xs \<Longrightarrow> index_of xs v < length xs"
  by (induction xs) (auto simp: index_of_def)

lemma index_of_nth: "v \<in> set xs \<Longrightarrow> xs ! index_of xs v = v"
  by (induction xs) (auto simp: index_of_def)

lemma index_of_first: "j < index_of xs v \<Longrightarrow> xs ! j \<noteq> v"
proof (induction xs arbitrary: j)
  case Nil
  then show ?case by (simp add: index_of_def)
next
  case (Cons x xs)
  show ?case
  proof (cases j)
    case 0
    with Cons.prems show ?thesis by (auto simp: index_of_def split: if_splits)
  next
    case (Suc i)
    with Cons.prems have "i < index_of xs v" by (auto simp: index_of_def split: if_splits)
    with Cons.IH Suc show ?thesis by simp
  qed
qed

lemma sum_scores_eq:
  "1 \<le> maxp \<Longrightarrow>
   sum_scores ion maxp = map (annotated_count ion) [1..<Suc (min (length ion) (nat maxp))]"
proof -
  assume "1 \<le> maxp"
  then have "nat (min (int (length ion) + 1) (maxp + 1)) = Suc (min (length ion) (nat maxp))"
    by (cases "int (length ion) \<le> maxp") (simp_all add: min_def nat_add_distrib)
  then show ?thesis by (simp add: sum_scores_def)
qed

lemma annotated_count_map:
  "annotated_count (map (\<lambda>idx. assigned_peaks ! idx) wp) k = annotated_in assigned_peaks (take k wp)"
  by (simp add: annotated_count_def annotated_in_def take_map filter_map comp_def)

lemma window_peaks_set: "set (window_peaks ps a b) = {a..<b}"
  by (simp add: window_peaks_def)

lemma window_peaks_length: "length (window_peaks ps a b) = b - a"
  by (simp add: window_peaks_def)

lemma window_peaks_distinct: "distinct (window_peaks ps a b)"
  by (simp add: window_peaks_def)

lemma window_peaks_descending:
  assumes "i \<le> j" "j < b - a"
  shows "snd (ps ! (window_peaks ps a b ! j)) \<le> snd (ps ! (window_peaks ps a b ! i))"
proof -
  have "sorted (map (\<lambda>ii. - snd (ps ! ii)) (window_peaks ps a b))"
    by (simp add: window_peaks_def)
  with assms have "map (\<lambda>ii. - snd (ps ! ii)) (window_peaks ps a b) ! i
                 \<le> map (\<lambda>ii. - snd (ps ! ii)) (window_peaks ps a b) ! j"
    by (intro sorted_nth_mono) (simp_all add: window_peaks_length)
  with assms show ?thesis by (simp add: window_peaks_length)
qed

lemma window_peaks_stable:
  "filter (\<lambda>ii. snd (ps ! ii) = v) (window_peaks ps a b) = filter (\<lambda>ii. snd (ps ! ii) = v) [a..<b]"
  using sort_key_stable [of "\<lambda>ii. - snd (ps ! ii)" "- v" "[a..<b]"]
  by (simp add: window_peaks_def)

text \<open>
  The ranking branch on a candidate range \<open>[start_idx, end_idx)\<close> that is not empty, with
  flags for all its peaks: what it returns for \<open>max_peaks_per_window \<ge> 1\<close>, and that it
  raises ValueError below 1.
\<close>

lemma window_retained_top_k:
  assumes "start_idx < end_idx" and "end_idx \<le> length assigned_peaks"
    and "1 \<le> max_peaks_per_window"
  shows "\<exists>k. window_retained ps assigned_peaks max_peaks_per_window start_idx end_idx
              = Inr (take k (window_peaks ps start_idx end_idx))
          \<and> 1 \<le> k \<and> k \<le> min (end_idx - start_idx) (nat max_peaks_per_window)
          \<and> (\<forall>j. 1 \<le> j \<and> j \<le> min (end_idx - start_idx) (nat max_peaks_per_window) \<longrightarrow>
                annotated_in assigned_peaks (take j (window_peaks ps start_idx end_idx))
                \<le> annotated_in assigned_peaks (take k (window_peaks ps start_idx end_idx)))
          \<and> (\<forall>j. 1 \<le> j \<and> j < k \<longrightarrow>
                annotated_in assigned_peaks (take j (window_peaks ps start_idx end_idx))
                < annotated_in assigned_peaks (take k (window_peaks ps start_idx end_idx)))
          \<and> length (take k (window_peaks ps start_idx end_idx)) = k
          \<and> int k \<le> max_peaks_per_window
          \<and> set (window_peaks ps start_idx end_idx) = {start_idx..<end_idx}
          \<and> distinct (window_peaks ps start_idx end_idx)
          \<and> (\<forall>a b. a \<le> b \<and> b < end_idx - start_idx \<longrightarrow>
                snd (ps ! (window_peaks ps start_idx end_idx ! b))
                \<le> snd (ps ! (window_peaks ps start_idx end_idx ! a)))
          \<and> (\<forall>m < 1. window_retained ps assigned_peaks m start_idx end_idx = Inl ValueError)"
proof -
  let ?wp = "window_peaks ps start_idx end_idx"
  let ?ion = "map (\<lambda>idx. assigned_peaks ! idx) ?wp"
  let ?ss = "sum_scores ?ion max_peaks_per_window"
  let ?cnt = "\<lambda>j. annotated_in assigned_peaks (take j ?wp)"
  define K where "K = min (end_idx - start_idx) (nat max_peaks_per_window)"
  define i where "i = index_of ?ss (max_list ?ss)"
  have K1: "1 \<le> K" using assms(1,3) unfolding K_def by arith
  have Kle: "K \<le> end_idx - start_idx" "int K \<le> max_peaks_per_window"
    using assms(3) unfolding K_def by arith+
  have ss: "?ss = map ?cnt [1..<Suc K]"
    using assms(3) unfolding K_def
    by (simp add: sum_scores_eq annotated_count_map window_peaks_length del: upt_Suc)
  have len: "length ?ss = K" unfolding ss by (simp del: upt_Suc)
  have ne: "?ss \<noteq> []" using len K1 by auto
  have nth: "?ss ! j = ?cnt (Suc j)" if "j < K" for j
    unfolding ss using that by (simp add: nth_map_upt del: upt_Suc)
  have inrange: "\<not> list_ex (\<lambda>idx. length assigned_peaks \<le> idx) ?wp"
    using assms(2) by (auto simp: list_ex_iff window_peaks_set)
  have res: "window_retained ps assigned_peaks max_peaks_per_window start_idx end_idx
             = Inr (take (Suc i) ?wp)"
    using inrange ne by (simp add: window_retained_def Let_def i_def)
  have mem: "max_list ?ss \<in> set ?ss" using ne by (rule max_list_mem)
  have iK: "i < K"
    using index_of_less [OF mem] len unfolding i_def by simp
  have kval: "?cnt (Suc i) = max_list ?ss"
    using index_of_nth [OF mem] nth [OF iK] unfolding i_def by simp
  have maxi: "?cnt j \<le> ?cnt (Suc i)" if "1 \<le> j" "j \<le> K" for j
  proof -
    from that have jK: "j - 1 < K" by arith
    then have "?ss ! (j - 1) \<in> set ?ss" using len by (metis nth_mem)
    then have "?ss ! (j - 1) \<le> max_list ?ss" by (rule max_list_ge)
    with nth [OF jK] that kval show ?thesis by simp
  qed
  have first: "?cnt j < ?cnt (Suc i)" if "1 \<le> j" "j < Suc i" for j
  proof -
    from that have lt: "j - 1 < index_of ?ss (max_list ?ss)" unfolding i_def by arith
    then have "?ss ! (j - 1) \<noteq> max_list ?ss" by (rule index_of_first)
    moreover from that iK have jK: "j - 1 < K" by arith
    ultimately have "?cnt j \<noteq> ?cnt (Suc i)" using nth [OF jK] that kval by simp
    moreover have "?cnt j \<le> ?cnt (Suc i)" using that iK by (intro maxi) arith+
    ultimately show ?thesis by simp
  qed
  have lk: "length (take (Suc i) ?wp) = Suc i"
    using iK Kle(1) by (simp add: window_peaks_length)
  have km: "int (Suc i) \<le> max_peaks_per_window" using iK Kle(2) by arith
  have k1: "1 \<le> Suc i" "Suc i \<le> K" using iK by simp_all
  have rank: "set ?wp = {start_idx..<end_idx}" "distinct ?wp"
    "\<forall>a b. a \<le> b \<and> b < end_idx - start_idx \<longrightarrow> snd (ps ! (?wp ! b)) \<le> snd (ps ! (?wp ! a))"
    using window_peaks_descending [of _ _ end_idx start_idx ps]
    by (simp_all add: window_peaks_set window_peaks_distinct)
  have err: "\<forall>m < 1. window_retained ps assigned_peaks m start_idx end_idx = Inl ValueError"
    using inrange by (simp add: window_retained_def Let_def sum_scores_def)
  from res k1 maxi first lk km rank err show ?thesis unfolding K_def by blast
qed


subsection \<open>Facts about the constructor and denoise\<close>

lemma Spectrum_init_fields:
  "Spectrum_init arr pmz ch rt = Inr s \<Longrightarrow>
   prec_mz s = pmz \<and> charge s = ch \<and> retention_time s = rt"
  by (auto simp: Spectrum_init_def Let_def split: if_splits)

lemma Spectrum_init_ascending:
  "Spectrum_init arr pmz ch rt = Inr s \<Longrightarrow> mz_ascending s"
  by (auto simp: Spectrum_init_def Let_def mz_ascending_def mz_sort_def split: if_splits)

lemma Spectrum_init_two_columns:
  "\<exists>s. Spectrum_init (NdArray 2 rs) pmz ch rt = Inr s"
  by (simp add: Spectrum_init_def Let_def transpose_arr_def)

lemma denoise_fields:
  assumes "denoise s assigned_peaks max_peaks_per_window = Inr (new_peaks, s')"
  shows "prec_mz s' = prec_mz s \<and> charge s' = charge s \<and> retention_time s' = None"
  using assms
  by (auto simp: denoise_def Let_def split: if_splits sum.splits prod.splits
           dest: Spectrum_init_fields)

lemma for_end_idx_mem: "xs \<noteq> [] \<Longrightarrow> for_end_idx ps mm xs prev \<in> set xs"
proof (induction xs arbitrary: prev)
  case Nil
  then show ?case by simp
next
  case (Cons i rest)
  then show ?case by (cases rest) auto
qed

lemma window_retained_returns:
  assumes "start_idx < end_idx" and "end_idx \<le> length assigned_peaks"
    and "1 \<le> max_peaks_per_window"
  shows "\<exists>k. window_retained ps assigned_peaks max_peaks_per_window start_idx end_idx
              = Inr (take k (window_peaks ps start_idx end_idx))"
proof -
  let ?wp = "window_peaks ps start_idx end_idx"
  let ?ion = "map (\<lambda>idx. assigned_peaks ! idx) ?wp"
  have "1 \<le> min (end_idx - start_idx) (nat max_peaks_per_window)"
    using assms(1,3) by arith
  then have "sum_scores ?ion max_peaks_per_window \<noteq> []"
    using assms(3) by (simp add: sum_scores_eq window_peaks_length del: upt_Suc) arith
  moreover have "\<not> list_ex (\<lambda>idx. length assigned_peaks \<le> idx) ?wp"
    using assms(2) by (auto simp: list_ex_iff window_peaks_set)
  ultimately show ?thesis by (auto simp: window_retained_def Let_def)
qed

lemma denoise_window_returns:
  assumes "start_idx < length ps" and "length ps \<le> length assigned_peaks"
    and "1 \<le> max_peaks_per_window" and "\<forall>i \<in> set new_peaks. i < length ps"
  shows "\<exists>start' end' new'.
           denoise_window ps assigned_peaks max_peaks_per_window window (start_idx, prev, new_peaks)
             = Inr (start', end', new')
           \<and> start' < length ps \<and> (\<forall>i \<in> set new'. i < length ps)"
proof -
  define mm where "mm = fst (ps ! 0) + (of_nat window + 1) * 100"
  define e where "e = for_end_idx ps mm [start_idx..<length ps] prev"
  have "e \<in> set [start_idx..<length ps]"
    unfolding e_def using assms(1) by (intro for_end_idx_mem) auto
  then have e: "start_idx \<le> e" "e < length ps" by simp_all
  have dw: "denoise_window ps assigned_peaks max_peaks_per_window window (start_idx, prev, new_peaks)
     = (if e = start_idx then
             (if length ps \<le> e then Inl IndexError
              else if fst (ps ! e) \<le> mm then
                (if length assigned_peaks \<le> e then Inl IndexError
                 else if assigned_peaks ! e
                      then Inr (start_idx, e, new_peaks @ [e])
                      else Inr (start_idx, e, new_peaks))
              else Inr (start_idx, e, new_peaks))
           else
             (case window_retained ps assigned_peaks max_peaks_per_window start_idx e of
                Inl err \<Rightarrow> Inl err
              | Inr kept \<Rightarrow> Inr (e, e, new_peaks @ kept)))"
    unfolding denoise_window_def e_def mm_def by (simp only: Let_def prod.case)
  show ?thesis
  proof (cases "e = start_idx")
    case True
    with e assms show ?thesis unfolding dw by auto
  next
    case False
    with e have lt: "start_idx < e" by simp
    from e assms(2) have le: "e \<le> length assigned_peaks" by simp
    from window_retained_returns [OF lt le assms(3)]
    obtain k where k: "window_retained ps assigned_peaks max_peaks_per_window start_idx e
                       = Inr (take k (window_peaks ps start_idx e))" by blast
    have "\<forall>i \<in> set (take k (window_peaks ps start_idx e)). i < length ps"
      using e set_take_subset [of k "window_peaks ps start_idx e"]
      by (auto simp: window_peaks_set)
    with False k e assms(4) show ?thesis unfolding dw by auto
  qed
qed

lemma denoise_loop_returns:
  assumes "length ps \<le> length assigned_peaks" and "1 \<le> max_peaks_per_window"
  shows "start_idx < length ps \<Longrightarrow> \<forall>i \<in> set new_peaks. i < length ps \<Longrightarrow>
         \<exists>start' end' new'.
           denoise_loop ps assigned_peaks max_peaks_per_window ws (start_idx, prev, new_peaks)
             = Inr (start', end', new')
           \<and> (\<forall>i \<in> set new'. i < length ps)"
proof (induction ws arbitrary: start_idx prev new_peaks)
  case Nil
  then show ?case by simp
next
  case (Cons w ws)
  from denoise_window_returns [OF Cons.prems(1) assms(1,2) Cons.prems(2), of w prev]
  obtain s' e' n' where
    step: "denoise_window ps assigned_peaks max_peaks_per_window w (start_idx, prev, new_peaks)
           = Inr (s', e', n')"
    and inv: "s' < length ps" "\<forall>i \<in> set n'. i < length ps"
    by blast
  from Cons.IH [OF inv, of e'] step show ?case by simp
qed

lemma denoise_returns:
  assumes "peaks s \<noteq> []" and "length (peaks s) \<le> length assigned_peaks"
    and "1 \<le> max_peaks_per_window"
  shows "\<exists>new_peaks s'. denoise s assigned_peaks max_peaks_per_window = Inr (new_peaks, s')"
proof -
  let ?ps = "peaks s"
  let ?ws = "[0..<nat (py_int_of_float ((fst (last ?ps) - fst (hd ?ps)) / 100) + 1)]"
  from assms(1) have "0 < length ?ps" by simp
  from denoise_loop_returns [OF assms(2,3) this, of "[]" ?ws 0]
  obtain a b new where
    loop: "denoise_loop ?ps assigned_peaks max_peaks_per_window ?ws (0, 0, []) = Inr (a, b, new)"
    and inr: "\<forall>i \<in> set new. i < length ?ps"
    by auto
  from inr have ok: "\<not> list_ex (\<lambda>idx. length ?ps \<le> idx) new"
    by (auto simp: list_ex_iff)
  obtain s' where "Spectrum_init (NdArray 2 (map (\<lambda>idx. peak_to_row (?ps ! idx)) new))
                      (prec_mz s) (charge s) None = Inr s'"
    using Spectrum_init_two_columns by blast
  with assms(1) loop ok show ?thesis
    by (simp add: denoise_def Let_def)
qed

lemma denoise_ascending:
  "denoise s assigned_peaks max_peaks_per_window = Inr (new_peaks, s') \<Longrightarrow> mz_ascending s'"
  by (auto simp: denoise_def Let_def split: if_splits sum.splits prod.splits
           dest: Spectrum_init_ascending)

lemma denoise_loop_append:
  "denoise_loop ps a m (ws @ ws') st
   = (case denoise_loop ps a m ws st of Inl e \<Rightarrow> Inl e | Inr st' \<Rightarrow> denoise_loop ps a m ws' st')"
  by (induction ws arbitrary: st) (simp_all split: sum.splits)

lemma for_end_idx_upt:
  assumes "start_idx < n"
  shows "start_idx \<le> for_end_idx ps mm [start_idx..<n] prev
       \<and> for_end_idx ps mm [start_idx..<n] prev < n
       \<and> (\<forall>i. start_idx \<le> i \<and> i < for_end_idx ps mm [start_idx..<n] prev \<longrightarrow> fst (ps ! i) \<le> mm)
       \<and> (mm < fst (ps ! for_end_idx ps mm [start_idx..<n] prev)
            \<or> for_end_idx ps mm [start_idx..<n] prev = n - 1)"
  using assms
proof (induction "n - start_idx" arbitrary: start_idx prev)
  case 0
  then show ?case by simp
next
  case (Suc d)
  then have up: "[start_idx..<n] = start_idx # [Suc start_idx..<n]" by (simp add: upt_conv_Cons)
  show ?case
  proof (cases "mm < fst (ps ! start_idx)")
    case True
    with Suc.prems show ?thesis unfolding up by simp
  next
    case False
    show ?thesis
    proof (cases "Suc start_idx < n")
      case lt: True
      from Suc.hyps(2) have "d = n - Suc start_idx" by simp
      define e where "e = for_end_idx ps mm [Suc start_idx..<n] start_idx"
      from Suc.hyps(1) [OF \<open>d = n - Suc start_idx\<close> lt, of start_idx]
      have IH: "Suc start_idx \<le> e" "e < n"
        "\<forall>i. Suc start_idx \<le> i \<and> i < e \<longrightarrow> fst (ps ! i) \<le> mm"
        "mm < fst (ps ! e) \<or> e = n - 1"
        unfolding e_def by blast+
      have eq: "for_end_idx ps mm [start_idx..<n] prev = e"
        unfolding up e_def using False by simp
      have "fst (ps ! i) \<le> mm" if "start_idx \<le> i" "i < e" for i
      proof (cases "i = start_idx")
        case True
        with False show ?thesis by simp
      next
        case False
        with that have "Suc start_idx \<le> i" by simp
        with IH(3) that show ?thesis by blast
      qed
      with IH show ?thesis unfolding eq by auto
    next
      case ge: False
      with Suc.prems have "[Suc start_idx..<n] = []" "start_idx = n - 1" by simp_all
      with False Suc.prems show ?thesis unfolding up by simp
    qed
  qed
qed

lemma denoise_window_eq:
  "denoise_window ps assigned_peaks m window (start_idx, prev, new_peaks)
   = (if for_end_idx ps (fst (ps ! 0) + (of_nat window + 1) * 100) [start_idx..<length ps] prev
         = start_idx
      then
        (if length ps \<le> start_idx then Inl IndexError
         else if fst (ps ! start_idx) \<le> fst (ps ! 0) + (of_nat window + 1) * 100 then
           (if length assigned_peaks \<le> start_idx then Inl IndexError
            else if assigned_peaks ! start_idx
                 then Inr (start_idx, start_idx, new_peaks @ [start_idx])
                 else Inr (start_idx, start_idx, new_peaks))
         else Inr (start_idx, start_idx, new_peaks))
      else
        (case window_retained ps assigned_peaks m start_idx
                (for_end_idx ps (fst (ps ! 0) + (of_nat window + 1) * 100)
                   [start_idx..<length ps] prev) of
           Inl e \<Rightarrow> Inl e
         | Inr kept \<Rightarrow>
             Inr (for_end_idx ps (fst (ps ! 0) + (of_nat window + 1) * 100)
                    [start_idx..<length ps] prev,
                  for_end_idx ps (fst (ps ! 0) + (of_nat window + 1) * 100)
                    [start_idx..<length ps] prev,
                  new_peaks @ kept)))"
  by (cases "for_end_idx ps (fst (ps ! 0) + (of_nat window + 1) * 100) [start_idx..<length ps] prev
             = start_idx")
     (simp_all add: denoise_window_def Let_def split: sum.splits)

lemma denoise_window_grows:
  "denoise_window ps a m w (start_idx, prev, new_peaks) = Inr (start', end', new') \<Longrightarrow>
   prefix new_peaks new'"
  unfolding denoise_window_eq by (auto split: if_splits sum.splits)

lemma denoise_loop_grows:
  "denoise_loop ps a m ws (start_idx, prev, new_peaks) = Inr (start', end', new') \<Longrightarrow>
   prefix new_peaks new'"
proof (induction ws arbitrary: start_idx prev new_peaks)
  case Nil
  then show ?case by simp
next
  case (Cons w ws)
  from Cons.prems obtain s1 e1 n1 where
    step: "denoise_window ps a m w (start_idx, prev, new_peaks) = Inr (s1, e1, n1)"
    and rest: "denoise_loop ps a m ws (s1, e1, n1) = Inr (start', end', new')"
    by (auto split: sum.splits)
  from denoise_window_grows [OF step] Cons.IH [OF rest] show ?case
    by (rule prefix_order.trans)
qed

lemma denoise_loop_state:
  assumes "length ps \<le> length assigned_peaks" and "1 \<le> max_peaks_per_window"
  shows "start_idx < length ps \<Longrightarrow> \<forall>i \<in> set new_peaks. i < length ps \<Longrightarrow>
         \<exists>start' end' new'.
           denoise_loop ps assigned_peaks max_peaks_per_window ws (start_idx, prev, new_peaks)
             = Inr (start', end', new')
           \<and> start' < length ps \<and> (\<forall>i \<in> set new'. i < length ps)"
proof (induction ws arbitrary: start_idx prev new_peaks)
  case Nil
  then show ?case by simp
next
  case (Cons w ws)
  from denoise_window_returns [OF Cons.prems(1) assms(1,2) Cons.prems(2), of w prev]
  obtain s' e' n' where
    step: "denoise_window ps assigned_peaks max_peaks_per_window w (start_idx, prev, new_peaks)
           = Inr (s', e', n')"
    and inv: "s' < length ps" "\<forall>i \<in> set n'. i < length ps"
    by blast
  from Cons.IH [OF inv, of e'] step show ?case by simp
qed

lemma denoise_result:
  "denoise s a m = Inr (result, s') \<Longrightarrow>
   \<exists>start' end'.
     denoise_loop (peaks s) a m
       [0..<nat (py_int_of_float ((fst (last (peaks s)) - fst (hd (peaks s))) / 100) + 1)]
       (0, 0, []) = Inr (start', end', result)"
  by (auto simp: denoise_def Let_def split: if_splits sum.splits prod.splits)

text \<open>
  C2. Let denoise run on a non-empty spectrum with a flag for every peak and
  \<open>max_peaks_per_window \<ge> 1\<close>, and take any of its windows (\<open>window < n_windows\<close>). The
  loop reaches that window in a state \<open>(start_idx, prev, new_peaks)\<close>; its candidate
  range is \<open>[start_idx, end_idx)\<close> with \<open>end_idx\<close> the value of the inner loop, and all
  its candidates lie at or below the window's upper mass. When the range is not empty (so
  also when it holds at least two candidates), the iteration appends to \<open>new_peaks\<close>
  exactly the first \<open>k\<close> candidates of the ranking by descending intensity, and these
  stay in the list denoise returns. Here \<open>k\<close> lies in
  \<open>1..min(window size, max_peaks_per_window)\<close>, no prefix length in that range has more
  annotated peaks than the first \<open>k\<close>, and every shorter prefix has strictly fewer: \<open>k\<close>
  is the smallest maximiser, and at most \<open>max_peaks_per_window\<close> peaks are retained.
\<close>

theorem denoise_window_top_k:
  assumes "peaks s \<noteq> []" and "length (peaks s) \<le> length assigned_peaks"
    and "1 \<le> max_peaks_per_window"
    and "window < nat (py_int_of_float ((fst (last (peaks s)) - fst (hd (peaks s))) / 100) + 1)"
  shows "\<exists>result s' start_idx prev new_peaks end_idx.
      denoise s assigned_peaks max_peaks_per_window = Inr (result, s')
    \<and> denoise_loop (peaks s) assigned_peaks max_peaks_per_window [0..<window] (0, 0, [])
        = Inr (start_idx, prev, new_peaks)
    \<and> end_idx = for_end_idx (peaks s) (fst (peaks s ! 0) + (of_nat window + 1) * 100)
                   [start_idx..<length (peaks s)] prev
    \<and> start_idx \<le> end_idx \<and> end_idx < length (peaks s)
    \<and> (\<forall>i. start_idx \<le> i \<and> i < end_idx \<longrightarrow>
           fst (peaks s ! i) \<le> fst (peaks s ! 0) + (of_nat window + 1) * 100)
    \<and> (end_idx = start_idx \<or>
        (\<exists>k. denoise_window (peaks s) assigned_peaks max_peaks_per_window window
                (start_idx, prev, new_peaks)
              = Inr (end_idx, end_idx, new_peaks @ take k (window_peaks (peaks s) start_idx end_idx))
           \<and> denoise_loop (peaks s) assigned_peaks max_peaks_per_window [0..<Suc window] (0, 0, [])
              = Inr (end_idx, end_idx, new_peaks @ take k (window_peaks (peaks s) start_idx end_idx))
           \<and> prefix (new_peaks @ take k (window_peaks (peaks s) start_idx end_idx)) result
           \<and> 1 \<le> k \<and> k \<le> min (end_idx - start_idx) (nat max_peaks_per_window)
           \<and> length (take k (window_peaks (peaks s) start_idx end_idx)) = k
           \<and> int k \<le> max_peaks_per_window
           \<and> (\<forall>j. 1 \<le> j \<and> j \<le> min (end_idx - start_idx) (nat max_peaks_per_window) \<longrightarrow>
                 annotated_in assigned_peaks (take j (window_peaks (peaks s) start_idx end_idx))
                 \<le> annotated_in assigned_peaks (take k (window_peaks (peaks s) start_idx end_idx)))
           \<and> (\<forall>j. 1 \<le> j \<and> j < k \<longrightarrow>
                 annotated_in assigned_peaks (take j (window_peaks (peaks s) start_idx end_idx))
                 < annotated_in assigned_peaks (take k (window_peaks (peaks s) start_idx end_idx)))
           \<and> set (window_peaks (peaks s) start_idx end_idx) = {start_idx..<end_idx}
           \<and> distinct (window_peaks (peaks s) start_idx end_idx)
           \<and> (\<forall>a b. a \<le> b \<and> b < end_idx - start_idx \<longrightarrow>
                 snd (peaks s ! (window_peaks (peaks s) start_idx end_idx ! b))
                 \<le> snd (peaks s ! (window_peaks (peaks s) start_idx end_idx ! a)))))"
proof -
  let ?ps = "peaks s"
  define N where "N = nat (py_int_of_float ((fst (last ?ps) - fst (hd ?ps)) / 100) + 1)"
  define mm where "mm = fst (?ps ! 0) + (of_nat window + 1) * 100"
  from denoise_returns [OF assms(1-3)] obtain result s' where
    den: "denoise s assigned_peaks max_peaks_per_window = Inr (result, s')" by blast
  from denoise_result [OF den] obtain sN eN where
    full: "denoise_loop ?ps assigned_peaks max_peaks_per_window [0..<N] (0, 0, []) = Inr (sN, eN, result)"
    unfolding N_def by blast
  from assms(1) have pos: "0 < length ?ps" by simp
  from denoise_loop_state [OF assms(2,3) pos, of "[]" "[0..<window]" 0]
  obtain start_idx prev new_peaks where
    before: "denoise_loop ?ps assigned_peaks max_peaks_per_window [0..<window] (0, 0, [])
             = Inr (start_idx, prev, new_peaks)"
    and st: "start_idx < length ?ps"
    by auto
  define e where "e = for_end_idx ?ps mm [start_idx..<length ?ps] prev"
  from for_end_idx_upt [OF st, of ?ps mm prev]
  have e: "start_idx \<le> e" "e < length ?ps"
    "\<forall>i. start_idx \<le> i \<and> i < e \<longrightarrow> fst (?ps ! i) \<le> mm"
    unfolding e_def by blast+
  have split1: "[0..<Suc window] = [0..<window] @ [window]" by simp
  from assms(4) have split2: "[0..<N] = [0..<Suc window] @ [Suc window..<N]"
    unfolding N_def [symmetric] by (metis Suc_leI le0 upt_add_eq_append le_add_diff_inverse)
  have step: "denoise_loop ?ps assigned_peaks max_peaks_per_window [0..<Suc window] (0, 0, [])
        = denoise_window ?ps assigned_peaks max_peaks_per_window window (start_idx, prev, new_peaks)"
    unfolding split1 denoise_loop_append before by (simp split: sum.splits)
  show ?thesis
  proof (cases "e = start_idx")
    case True
    with den before e show ?thesis unfolding e_def mm_def by blast
  next
    case False
    with e have lt: "start_idx < e" by simp
    from e assms(2) have le: "e \<le> length assigned_peaks" by simp
    from window_retained_top_k [OF lt le assms(3), of ?ps]
    obtain k where
      kept: "window_retained ?ps assigned_peaks max_peaks_per_window start_idx e
             = Inr (take k (window_peaks ?ps start_idx e))"
      and k: "1 \<le> k" "k \<le> min (e - start_idx) (nat max_peaks_per_window)"
        "length (take k (window_peaks ?ps start_idx e)) = k" "int k \<le> max_peaks_per_window"
        "\<forall>j. 1 \<le> j \<and> j \<le> min (e - start_idx) (nat max_peaks_per_window) \<longrightarrow>
             annotated_in assigned_peaks (take j (window_peaks ?ps start_idx e))
             \<le> annotated_in assigned_peaks (take k (window_peaks ?ps start_idx e))"
        "\<forall>j. 1 \<le> j \<and> j < k \<longrightarrow>
             annotated_in assigned_peaks (take j (window_peaks ?ps start_idx e))
             < annotated_in assigned_peaks (take k (window_peaks ?ps start_idx e))"
        "set (window_peaks ?ps start_idx e) = {start_idx..<e}"
        "distinct (window_peaks ?ps start_idx e)"
        "\<forall>a b. a \<le> b \<and> b < e - start_idx \<longrightarrow>
             snd (?ps ! (window_peaks ?ps start_idx e ! b))
             \<le> snd (?ps ! (window_peaks ?ps start_idx e ! a))"
      by blast
    have win: "denoise_window ?ps assigned_peaks max_peaks_per_window window
                 (start_idx, prev, new_peaks)
               = Inr (e, e, new_peaks @ take k (window_peaks ?ps start_idx e))"
      unfolding denoise_window_eq mm_def [symmetric] e_def [symmetric]
      using False kept by simp
    have after: "denoise_loop ?ps assigned_peaks max_peaks_per_window [0..<Suc window] (0, 0, [])
               = Inr (e, e, new_peaks @ take k (window_peaks ?ps start_idx e))"
      unfolding step win ..
    from full have "denoise_loop ?ps assigned_peaks max_peaks_per_window [Suc window..<N]
               (e, e, new_peaks @ take k (window_peaks ?ps start_idx e)) = Inr (sN, eN, result)"
      unfolding split2 denoise_loop_append after by simp
    then have pre: "prefix (new_peaks @ take k (window_peaks ?ps start_idx e)) result"
      by (rule denoise_loop_grows)
    from den before e win after pre k show ?thesis unfolding e_def mm_def by blast
  qed
qed

theorem denoise_window_top_k_witness:
  "peaks \<lparr>peaks = [(100, 5), (110, 30), (120, 10), (130, 20), (140, 2), (150, 1), (250, 3)],
           prec_mz = 500, charge = Some 2, retention_time = None\<rparr> \<noteq> []
   \<and> (1::int) \<le> 8
   \<and> denoise \<lparr>peaks = [(100, 5), (110, 30), (120, 10), (130, 20), (140, 2), (150, 1), (250, 3)],
           prec_mz = 500, charge = Some 2, retention_time = None\<rparr>
         [False, True, True, False, False, False, False] 8
       = Inr ([1, 3, 2], \<lparr>peaks = [(110, 30), (120, 10), (130, 20)], prec_mz = 500,
                          charge = Some 2, retention_time = None\<rparr>)
   \<and> (\<exists>k. denoise_window [(100, 5), (110, 30), (120, 10), (130, 20), (140, 2), (150, 1), (250, 3)]
              [False, True, True, False, False, False, False] 8 0 (0, 0, [])
            = Inr (6, 6, take k [1, 3, 2, 0, 4, 5])
          \<and> prefix (take k [1, 3, 2, 0, 4, 5]) [1, 3, 2 :: nat] \<and> 1 \<le> k \<and> int k \<le> 8)"
proof -
  let ?ps = "[(100, 5), (110, 30), (120, 10), (130, 20), (140, 2), (150, 1), (250, 3)] :: peak list"
  let ?s = "\<lparr>peaks = ?ps, prec_mz = 500, charge = Some 2, retention_time = None\<rparr>"
  let ?fl = "[False, True, True, False, False, False, False]"
  have h1: "peaks ?s \<noteq> []" by simp
  have h2: "length (peaks ?s) \<le> length ?fl" by simp
  have h3: "(1::int) \<le> 8" by simp
  have h4: "0 < nat (py_int_of_float ((fst (last (peaks ?s)) - fst (hd (peaks ?s))) / 100) + 1)"
    by (simp add: py_int_of_float_def)
  have den: "denoise ?s ?fl 8
       = Inr ([1, 3, 2], \<lparr>peaks = [(110, 30), (120, 10), (130, 20)], prec_mz = 500,
                          charge = Some 2, retention_time = None\<rparr>)"
    by code_simp
  have e6: "for_end_idx ?ps (fst (?ps ! 0) + (of_nat 0 + 1) * 100) [0..<length ?ps] 0 = 6"
    by code_simp
  have wp: "window_peaks ?ps 0 6 = [1, 3, 2, 0, 4, 5]" by code_simp
  from denoise_window_top_k [OF h1 h2 h3 h4]
  obtain result s' start_idx prev new_peaks end_idx where
    r: "denoise ?s ?fl 8 = Inr (result, s')"
    and b: "denoise_loop (peaks ?s) ?fl 8 [0..<0] (0, 0, []) = Inr (start_idx, prev, new_peaks)"
    and e: "end_idx = for_end_idx (peaks ?s) (fst (peaks ?s ! 0) + (of_nat 0 + 1) * 100)
                   [start_idx..<length (peaks ?s)] prev"
    and d: "end_idx = start_idx \<or>
        (\<exists>k. denoise_window (peaks ?s) ?fl 8 0
                (start_idx, prev, new_peaks)
              = Inr (end_idx, end_idx, new_peaks @ take k (window_peaks (peaks ?s) start_idx end_idx))
           \<and> denoise_loop (peaks ?s) ?fl 8 [0..<Suc 0] (0, 0, [])
              = Inr (end_idx, end_idx, new_peaks @ take k (window_peaks (peaks ?s) start_idx end_idx))
           \<and> prefix (new_peaks @ take k (window_peaks (peaks ?s) start_idx end_idx)) result
           \<and> 1 \<le> k \<and> k \<le> min (end_idx - start_idx) (nat 8)
           \<and> length (take k (window_peaks (peaks ?s) start_idx end_idx)) = k
           \<and> int k \<le> 8
           \<and> (\<forall>j. 1 \<le> j \<and> j \<le> min (end_idx - start_idx) (nat 8) \<longrightarrow>
                 annotated_in ?fl (take j (window_peaks (peaks ?s) start_idx end_idx))
                 \<le> annotated_in ?fl (take k (window_peaks (peaks ?s) start_idx end_idx)))
           \<and> (\<forall>j. 1 \<le> j \<and> j < k \<longrightarrow>
                 annotated_in ?fl (take j (window_peaks (peaks ?s) start_idx end_idx))
                 < annotated_in ?fl (take k (window_peaks (peaks ?s) start_idx end_idx)))
           \<and> set (window_peaks (peaks ?s) start_idx end_idx) = {start_idx..<end_idx}
           \<and> distinct (window_peaks (peaks ?s) start_idx end_idx)
           \<and> (\<forall>a b. a \<le> b \<and> b < end_idx - start_idx \<longrightarrow>
                 snd (peaks ?s ! (window_peaks (peaks ?s) start_idx end_idx ! b))
                 \<le> snd (peaks ?s ! (window_peaks (peaks ?s) start_idx end_idx ! a))))"
    by (elim exE conjE) (rule that, assumption+)
  from b have st: "start_idx = 0" "prev = 0" "new_peaks = []" by simp_all
  from r den have res: "result = [1, 3, 2]" by simp
  from e e6 have en: "end_idx = 6" unfolding st by simp
  from d have "\<exists>k. denoise_window ?ps ?fl 8 0 (0, 0, []) = Inr (6, 6, take k [1, 3, 2, 0, 4, 5])
          \<and> prefix (take k [1, 3, 2, 0, 4, 5]) [1, 3, 2 :: nat] \<and> 1 \<le> k \<and> int k \<le> 8"
  proof
    assume "end_idx = start_idx"
    with st en show ?thesis by simp
  next
    assume "\<exists>k. denoise_window (peaks ?s) ?fl 8 0
                (start_idx, prev, new_peaks)
              = Inr (end_idx, end_idx, new_peaks @ take k (window_peaks (peaks ?s) start_idx end_idx))
           \<and> denoise_loop (peaks ?s) ?fl 8 [0..<Suc 0] (0, 0, [])
              = Inr (end_idx, end_idx, new_peaks @ take k (window_peaks (peaks ?s) start_idx end_idx))
           \<and> prefix (new_peaks @ take k (window_peaks (peaks ?s) start_idx end_idx)) result
           \<and> 1 \<le> k \<and> k \<le> min (end_idx - start_idx) (nat 8)
           \<and> length (take k (window_peaks (peaks ?s) start_idx end_idx)) = k
           \<and> int k \<le> 8
           \<and> (\<forall>j. 1 \<le> j \<and> j \<le> min (end_idx - start_idx) (nat 8) \<longrightarrow>
                 annotated_in ?fl (take j (window_peaks (peaks ?s) start_idx end_idx))
                 \<le> annotated_in ?fl (take k (window_peaks (peaks ?s) start_idx end_idx)))
           \<and> (\<forall>j. 1 \<le> j \<and> j < k \<longrightarrow>
                 annotated_in ?fl (take j (window_peaks (peaks ?s) start_idx end_idx))
                 < annotated_in ?fl (take k (window_peaks (peaks ?s) start_idx end_idx)))
           \<and> set (window_peaks (peaks ?s) start_idx end_idx) = {start_idx..<end_idx}
           \<and> distinct (window_peaks (peaks ?s) start_idx end_idx)
           \<and> (\<forall>a b. a \<le> b \<and> b < end_idx - start_idx \<longrightarrow>
                 snd (peaks ?s ! (window_peaks (peaks ?s) start_idx end_idx ! b))
                 \<le> snd (peaks ?s ! (window_peaks (peaks ?s) start_idx end_idx ! a)))"
    then obtain k where
      w: "denoise_window (peaks ?s) ?fl 8 0 (start_idx, prev, new_peaks)
              = Inr (end_idx, end_idx, new_peaks @ take k (window_peaks (peaks ?s) start_idx end_idx))"
      and p: "prefix (new_peaks @ take k (window_peaks (peaks ?s) start_idx end_idx)) result"
      and k: "1 \<le> k" "int k \<le> 8"
      by (elim exE conjE) (rule that, assumption+)
    have w': "denoise_window ?ps ?fl 8 0 (0, 0, []) = Inr (6, 6, take k [1, 3, 2, 0, 4, 5])"
      using w unfolding st en by (simp only: Spectrum.select_convs append_Nil wp)
    have p': "prefix (take k [1, 3, 2, 0, 4, 5]) [1, 3, 2 :: nat]"
      using p unfolding st en res by (simp only: Spectrum.select_convs append_Nil wp)
    from w' p' k show ?thesis by blast
  qed
  with h1 h3 den show ?thesis by blast
qed

lemma zip_as_index_map:
  "length r0 = n \<Longrightarrow> length r1 = n \<Longrightarrow> map (\<lambda>j. (r0 ! j, r1 ! j)) [0..<n] = zip r0 r1"
  by (rule nth_equalityI) simp_all

text \<open>
  C9. An array whose first dimension is 2 is transposed by the constructor: from the two
  rows \<open>r0\<close>, \<open>r1\<close> of a 2\<times>n array it builds the n peaks \<open>(r0[j], r1[j])\<close>. So the
  two-peak list \<open>[[mz1, i1], [mz2, i2]]\<close> is read as a 2\<times>peaks layout: its transpose has
  \<open>[mz1, mz2]\<close> as first row, and the spectrum holds the peaks \<open>(mz1, mz2)\<close> and
  \<open>(i1, i2)\<close>, sorted by their first component: \<open>(mz1, mz2)\<close> stays first when
  \<open>mz1 \<le> i1\<close>.
\<close>

theorem Spectrum_init_two_rows_transposed:
  assumes "length r0 = n" and "length r1 = n"
  shows "Spectrum_init (NdArray n [r0, r1]) pmz ch rt
           = Inr \<lparr>peaks = mz_sort (zip r0 r1), prec_mz = pmz, charge = ch, retention_time = rt\<rparr>
       \<and> Spectrum_of_list [[mz1, i1], [mz2, i2]] pmz ch rt
           = Inr \<lparr>peaks = mz_sort [(mz1, mz2), (i1, i2)], prec_mz = pmz, charge = ch,
                  retention_time = rt\<rparr>
       \<and> rows (transpose_arr (NdArray 2 [[mz1, i1], [mz2, i2]])) = [[mz1, mz2], [i1, i2]]
       \<and> (mz1 \<le> i1 \<longrightarrow> mz_sort [(mz1, mz2), (i1, i2)] = [(mz1, mz2), (i1, i2)])"
proof -
  have "map (row_to_peak \<circ> (\<lambda>j. [r0 ! j, r1 ! j])) [0..<n] = zip r0 r1"
    using zip_as_index_map [OF assms] by (simp add: row_to_peak_def comp_def)
  then have a: "Spectrum_init (NdArray n [r0, r1]) pmz ch rt
           = Inr \<lparr>peaks = mz_sort (zip r0 r1), prec_mz = pmz, charge = ch, retention_time = rt\<rparr>"
    by (simp add: Spectrum_init_def Let_def transpose_arr_def)
  have up: "[0..<2] = [0, Suc 0]" by (simp add: upt_conv_Cons)
  have c: "rows (transpose_arr (NdArray 2 [[mz1, i1], [mz2, i2]])) = [[mz1, mz2], [i1, i2]]"
    by (simp add: transpose_arr_def up)
  have b: "Spectrum_of_list [[mz1, i1], [mz2, i2]] pmz ch rt
           = Inr \<lparr>peaks = mz_sort [(mz1, mz2), (i1, i2)], prec_mz = pmz, charge = ch,
                  retention_time = rt\<rparr>"
    by (simp add: Spectrum_of_list_def np_array_def Spectrum_init_def Let_def transpose_arr_def up
        row_to_peak_def)
  have d: "mz1 \<le> i1 \<longrightarrow> mz_sort [(mz1, mz2), (i1, i2)] = [(mz1, mz2), (i1, i2)]"
    by (simp add: mz_sort_def)
  from a b c d show ?thesis by blast
qed

theorem Spectrum_init_two_rows_transposed_witness:
  "length [100, 20 :: rat] = 2 \<and> length [200, 30 :: rat] = 2
   \<and> Spectrum_of_list [[100, 20], [200, 30]] 500 (Some 2) None
       = Inr \<lparr>peaks = [(20, 30), (100, 200)], prec_mz = 500, charge = Some 2,
              retention_time = None\<rparr>"
proof -
  have h1: "length [100, 20 :: rat] = 2" by simp
  have h2: "length [200, 30 :: rat] = 2" by simp
  from Spectrum_init_two_rows_transposed [OF h1 h2, of 500 "Some 2" None 100 20 200 30]
  have "Spectrum_of_list [[100, 20], [200, 30]] 500 (Some 2) None
       = Inr \<lparr>peaks = mz_sort [(100, 200), (20, 30)], prec_mz = 500, charge = Some 2,
              retention_time = None\<rparr>"
    by blast
  moreover have "mz_sort [(100, 200), (20, 30)] = [(20, 30), (100, 200 :: rat)]"
    by (simp add: mz_sort_def)
  ultimately show ?thesis using h1 h2 by simp
qed

text \<open>
  C10. The spectrum returned by denoise has the precursor mz and the charge of the input
  and no retention time, whatever the input's retention time was; and denoise does return
  on a non-empty spectrum with a flag for every peak and \<open>max_peaks_per_window \<ge> 1\<close>.
\<close>

theorem denoise_drops_retention_time:
  "(denoise s assigned_peaks max_peaks_per_window = Inr (new_peaks, s') \<longrightarrow>
      prec_mz s' = prec_mz s \<and> charge s' = charge s \<and> retention_time s' = None)
   \<and> (peaks s \<noteq> [] \<and> length (peaks s) \<le> length assigned_peaks \<and> 1 \<le> max_peaks_per_window \<longrightarrow>
      (\<exists>idxs r. denoise s assigned_peaks max_peaks_per_window = Inr (idxs, r)
         \<and> prec_mz r = prec_mz s \<and> charge r = charge s \<and> retention_time r = None))"
  using denoise_fields denoise_returns by blast

theorem denoise_drops_retention_time_witness:
  "denoise \<lparr>peaks = [(100, 10), (150, 30), (160, 20), (170, 1)], prec_mz = 500, charge = Some 2,
            retention_time = Some 12\<rparr> [True, False, True, False] 8
     = Inr ([1, 2, 0], \<lparr>peaks = [(100, 10), (150, 30), (160, 20)], prec_mz = 500,
                        charge = Some 2, retention_time = None\<rparr>)
   \<and> (\<exists>idxs r. denoise \<lparr>peaks = [(100, 10), (150, 30), (160, 20), (170, 1)], prec_mz = 500, charge = Some 2,
            retention_time = Some 12\<rparr> [True, False, True, False] 8 = Inr (idxs, r)
         \<and> prec_mz r = 500 \<and> charge r = Some 2 \<and> retention_time r = None)"
proof -
  let ?s = "\<lparr>peaks = [(100, 10), (150, 30), (160, 20), (170, 1)], prec_mz = 500, charge = Some 2,
            retention_time = Some 12\<rparr> :: Spectrum"
  have v: "denoise ?s [True, False, True, False] 8
     = Inr ([1, 2, 0], \<lparr>peaks = [(100, 10), (150, 30), (160, 20)], prec_mz = 500,
                        charge = Some 2, retention_time = None\<rparr>)"
    by code_simp
  have h: "peaks ?s \<noteq> [] \<and> length (peaks ?s) \<le> length [True, False, True, False] \<and> (1::int) \<le> 8"
    by simp
  from denoise_drops_retention_time [of ?s "[True, False, True, False]" 8] h
  have "\<exists>idxs r. denoise ?s [True, False, True, False] 8 = Inr (idxs, r)
         \<and> prec_mz r = prec_mz ?s \<and> charge r = charge ?s \<and> retention_time r = None"
    by blast
  then have "\<exists>idxs r. denoise ?s [True, False, True, False] 8 = Inr (idxs, r)
         \<and> prec_mz r = 500 \<and> charge r = Some 2 \<and> retention_time r = None"
    by simp
  with v show ?thesis by blast
qed

text \<open>
  C1. The candidate range of a window is \<open>range(start_idx, end_idx)\<close>. When no peak
  exceeds the window's upper mass the inner loop ends without \<open>break\<close> and \<open>end_idx\<close> is
  the last index, not one past it: the final peak of the spectrum is left out of the range.
  With peaks at 100 and 110 (one window) and only the second annotated, denoise retains
  index 0 alone, whereas ranking the whole window \<open>[0, 2)\<close> retains both. With peaks at
  100, 150 and 300 the final peak is taken up by two later single-peak windows and is
  retained twice.
\<close>

theorem denoise_final_peak_not_candidate:
  "denoise \<lparr>peaks = [(100, 10), (110, 5)], prec_mz = 500, charge = Some 2,
            retention_time = None\<rparr> [False, True] 8
     = Inr ([0], \<lparr>peaks = [(100, 10)], prec_mz = 500, charge = Some 2, retention_time = None\<rparr>)
   \<and> window_retained [(100, 10), (110, 5)] [False, True] 8 0 2 = Inr [0, 1]
   \<and> denoise \<lparr>peaks = [(100, 10), (150, 5), (300, 7)], prec_mz = 500, charge = Some 2,
            retention_time = None\<rparr> [True, True, True] 8
     = Inr ([0, 1, 2, 2], \<lparr>peaks = [(100, 10), (150, 5), (300, 7), (300, 7)], prec_mz = 500,
                            charge = Some 2, retention_time = None\<rparr>)"
  by code_simp

subsection \<open>centroid\<close>

text \<open>\<open>np.diff(self.mz)\<close>: the differences of consecutive mz values, one fewer than peaks.\<close>

definition np_diff :: "rat list \<Rightarrow> rat list" where
  "np_diff xs = map (\<lambda>i. xs ! (i + 1) - xs ! i) [0..<length xs - 1]"

text \<open>
  The inner \<open>while _diff <= 0.1\<close> loop, one call per iteration of its body: advance
  \<open>idx\<close>, append the peak, stop at the last peak or when the next gap exceeds 0.1.
  Reading a peak or a gap beyond the arrays raises IndexError.
\<close>

function cluster_loop :: "peak list \<Rightarrow> rat list \<Rightarrow> nat \<Rightarrow> peak list \<Rightarrow> error + nat \<times> peak list" where
  "cluster_loop ps mz_diffs idx peak_cluster =
     (if length ps \<le> idx + 1 then Inl IndexError
      else if idx + 1 = length mz_diffs then Inr (idx + 1, peak_cluster @ [ps ! (idx + 1)])
      else if length mz_diffs \<le> idx + 1 then Inl IndexError
      else if mz_diffs ! (idx + 1) \<le> 1 / 10
           then cluster_loop ps mz_diffs (idx + 1) (peak_cluster @ [ps ! (idx + 1)])
           else Inr (idx + 1, peak_cluster @ [ps ! (idx + 1)]))"
  by pat_completeness auto
termination
  by (relation "measure (\<lambda>(ps, mz_diffs, idx, peak_cluster). length ps - idx)") auto

declare cluster_loop.simps [simp del]

text \<open>
  \<open>max(peak_cluster, key=operator.itemgetter(1))\<close>: Python keeps the first element whose
  key is maximal; a later element replaces it only with a strictly greater key.
\<close>

fun max_by_intensity :: "peak \<Rightarrow> peak list \<Rightarrow> peak" where
  "max_by_intensity best [] = best"
| "max_by_intensity best (p # ps) = max_by_intensity (if snd best < snd p then p else best) ps"

text \<open>The peak appended for a cluster; \<open>len({p[1] for p in peak_cluster}) == 1\<close> tests
  whether all intensities are equal. The mean is the exact mean here; the code's
  \<open>sum(...) / float(len(...))\<close> is that mean rounded to a double (twice: the sum, then
  the quotient).\<close>

definition collapse_cluster :: "peak list \<Rightarrow> peak" where
  "collapse_cluster peak_cluster =
     (if length (remdups (map snd peak_cluster)) = 1
      then (sum_list (map fst peak_cluster) / of_nat (length peak_cluster),
            snd (hd peak_cluster))
      else max_by_intensity (hd peak_cluster) (tl peak_cluster))"

lemma cluster_loop_advances:
  "cluster_loop ps mz_diffs idx peak_cluster = Inr (idx', cl) \<Longrightarrow> idx < idx'"
proof (induction ps mz_diffs idx peak_cluster rule: cluster_loop.induct)
  case (1 ps mz_diffs idx peak_cluster)
  show ?case
  proof (cases "\<not> length ps \<le> idx + 1 \<and> idx + 1 \<noteq> length mz_diffs
                \<and> \<not> length mz_diffs \<le> idx + 1 \<and> mz_diffs ! (idx + 1) \<le> 1 / 10")
    case True
    with "1.prems"
    have "cluster_loop ps mz_diffs (idx + 1) (peak_cluster @ [ps ! (idx + 1)]) = Inr (idx', cl)"
      by (subst (asm) cluster_loop.simps) simp
    with True "1.IH" have "idx + 1 < idx'" by simp
    then show ?thesis by simp
  next
    case False
    with "1.prems" show ?thesis
      by (subst (asm) cluster_loop.simps) (auto split: if_splits)
  qed
qed

function centroid_loop :: "peak list \<Rightarrow> rat list \<Rightarrow> nat \<Rightarrow> peak list \<Rightarrow> error + peak list" where
  "centroid_loop ps mz_diffs idx centroided =
     (if idx < length ps then
        if length mz_diffs \<le> idx then Inr (centroided @ [ps ! idx])
        else if mz_diffs ! idx > 1 / 10
             then centroid_loop ps mz_diffs (idx + 1) (centroided @ [ps ! idx])
             else (case cluster_loop ps mz_diffs idx [ps ! idx] of
                     Inl e \<Rightarrow> Inl e
                   | Inr (idx', peak_cluster) \<Rightarrow>
                       centroid_loop ps mz_diffs (idx' + 1)
                         (centroided @ [collapse_cluster peak_cluster]))
      else Inr centroided)"
  by pat_completeness auto
termination
  by (relation "measure (\<lambda>(ps, mz_diffs, idx, centroided). length ps - idx)")
     (auto dest: cluster_loop_advances)

declare centroid_loop.simps [simp del]

definition centroid :: "Spectrum \<Rightarrow> error + Spectrum" where
  "centroid s =
     (if length (peaks s) \<le> 1 then Inr s
      else case centroid_loop (peaks s) (np_diff (map fst (peaks s))) 0 [] of
             Inl e \<Rightarrow> Inl e
           | Inr centroided \<Rightarrow> Inr (s\<lparr>peaks := centroided\<rparr>))"

subsection \<open>The centroid of the specification\<close>

text \<open>
  The specification's words, as a second definition: the peaks are cut into maximal runs
  whose consecutive mz gaps are at most 0.1 (\<open>mz_runs\<close>; a peak with no close neighbour is
  a run of its own), and each run gives one peak (\<open>run_peak\<close>): a single peak unchanged,
  the mean mz with the common intensity when all intensities of the run are equal, and
  otherwise the first peak of the run that has the greatest intensity.
\<close>

fun mz_runs :: "peak list \<Rightarrow> peak list list" where
  "mz_runs [] = []"
| "mz_runs [p] = [[p]]"
| "mz_runs (p # q # ps) =
     (if fst q - fst p \<le> 1 / 10
      then (case mz_runs (q # ps) of r # rs \<Rightarrow> (p # r) # rs | [] \<Rightarrow> [[p]])
      else [p] # mz_runs (q # ps))"

definition first_max_peak :: "peak list \<Rightarrow> peak" where
  "first_max_peak r = hd (filter (\<lambda>p. snd p = Max (set (map snd r))) r)"

definition run_peak :: "peak list \<Rightarrow> peak" where
  "run_peak r =
     (if length r = 1 then hd r
      else if \<forall>p \<in> set r. snd p = snd (hd r)
           then (sum_list (map fst r) / of_nat (length r), snd (hd r))
           else first_max_peak r)"

definition centroid_spec :: "peak list \<Rightarrow> peak list" where
  "centroid_spec ps = map run_peak (mz_runs ps)"

fun close_chain :: "peak list \<Rightarrow> bool" where
  "close_chain [] = True"
| "close_chain [p] = True"
| "close_chain (p # q # ps) = (fst q - fst p \<le> 1 / 10 \<and> close_chain (q # ps))"

fun runs_apart :: "peak list list \<Rightarrow> bool" where
  "runs_apart [] = True"
| "runs_apart [r] = True"
| "runs_apart (r # r' # rs) = (fst (hd r') - fst (last r) > 1 / 10 \<and> runs_apart (r' # rs))"

text \<open>The peaks that follow \<open>p\<close> in its run: an auxiliary view of \<open>mz_runs\<close>.\<close>

fun run_tail :: "peak \<Rightarrow> peak list \<Rightarrow> peak list" where
  "run_tail p [] = []"
| "run_tail p (q # qs) = (if fst q - fst p \<le> 1 / 10 then q # run_tail q qs else [])"

lemma mz_runs_Cons:
  "mz_runs (p # ps) = (p # run_tail p ps) # mz_runs (drop (length (run_tail p ps)) ps)"
proof (induction ps arbitrary: p)
  case Nil
  show ?case by simp
next
  case (Cons q qs)
  show ?case by (simp add: Cons.IH [of q])
qed

lemma run_tail_length: "length (run_tail p ps) \<le> length ps"
  by (induction ps arbitrary: p) auto

lemma mz_runs_concat: "concat (mz_runs ps) = ps"
  by (induction ps rule: mz_runs.induct) (auto split: list.splits)

lemma mz_runs_nonempty: "[] \<notin> set (mz_runs ps)"
  by (induction ps rule: mz_runs.induct) (auto split: list.splits)

lemma mz_runs_hd: "\<exists>r rs. mz_runs (p # ps) = (p # r) # rs"
  by (simp add: mz_runs_Cons)

lemma mz_runs_close: "list_all close_chain (mz_runs ps)"
proof (induction ps rule: mz_runs.induct)
  case (3 p q ps)
  obtain r rs where r: "mz_runs (q # ps) = (q # r) # rs" using mz_runs_hd by blast
  with 3 show ?case by (auto split: list.splits)
qed simp_all

lemma mz_runs_apart: "runs_apart (mz_runs ps)"
proof (induction ps rule: mz_runs.induct)
  case (3 p q ps)
  obtain r rs where r: "mz_runs (q # ps) = (q # r) # rs" using mz_runs_hd by blast
  show ?case
  proof (cases "fst q - fst p \<le> 1 / 10")
    case True
    with 3 r show ?thesis by (cases rs) auto
  next
    case False
    with 3 r show ?thesis by auto
  qed
qed simp_all

lemma Max_snd_Cons:
  "Max (set (map snd (b # p # ps))) = max (snd b) (Max (set (map snd (p # ps))))"
  by simp

lemma Max_snd_swap:
  "Max (set (map snd (b # p # ps))) = max (snd p) (Max (set (map snd (b # ps))))"
proof -
  have "set (map snd (b # p # ps)) = insert (snd p) (set (map snd (b # ps)))" by auto
  then show ?thesis by (simp only: Max_insert [OF finite_set] set_empty list.map) simp
qed

lemma Max_snd_ge_hd: "snd p \<le> Max (set (map snd (p # ps)))"
  by simp

lemma max_by_intensity_first_max: "max_by_intensity b ps = first_max_peak (b # ps)"
proof (induction ps arbitrary: b)
  case Nil
  show ?case by (simp add: first_max_peak_def)
next
  case (Cons p ps)
  define M where "M = Max (set (map snd (b # p # ps)))"
  define Mp where "Mp = Max (set (map snd (p # ps)))"
  define Mb where "Mb = Max (set (map snd (b # ps)))"
  have M1: "M = max (snd b) Mp" unfolding M_def Mp_def by (rule Max_snd_Cons)
  have M2: "M = max (snd p) Mb" unfolding M_def Mb_def by (rule Max_snd_swap)
  have pM: "snd p \<le> Mp" unfolding Mp_def by (rule Max_snd_ge_hd)
  have bM: "snd b \<le> Mb" unfolding Mb_def by (rule Max_snd_ge_hd)
  have fm: "first_max_peak (b # p # ps) = hd (filter (\<lambda>q. snd q = M) (b # p # ps))"
    unfolding first_max_peak_def M_def ..
  have fp: "first_max_peak (p # ps) = hd (filter (\<lambda>q. snd q = Mp) (p # ps))"
    unfolding first_max_peak_def Mp_def ..
  have fb: "first_max_peak (b # ps) = hd (filter (\<lambda>q. snd q = Mb) (b # ps))"
    unfolding first_max_peak_def Mb_def ..
  show ?case
  proof (cases "snd b < snd p")
    case True
    with pM M1 have "M = Mp" "snd b \<noteq> M" by (simp_all add: max_def)
    then have "first_max_peak (b # p # ps) = first_max_peak (p # ps)"
      unfolding fm fp by simp
    moreover have "max_by_intensity b (p # ps) = first_max_peak (p # ps)"
      using True Cons.IH [of p] by simp
    ultimately show ?thesis by simp
  next
    case False
    with bM M2 have MM: "M = Mb" by (simp add: max_def)
    have "first_max_peak (b # p # ps) = first_max_peak (b # ps)"
    proof (cases "snd b = M")
      case True
      then show ?thesis unfolding fm fb MM [symmetric] by simp
    next
      case nM: False
      with bM MM False have "snd p \<noteq> M" by simp
      with nM show ?thesis unfolding fm fb MM [symmetric] by simp
    qed
    moreover have "max_by_intensity b (p # ps) = first_max_peak (b # ps)"
      using False Cons.IH [of b] by simp
    ultimately show ?thesis by simp
  qed
qed

lemma same_intensity_iff:
  assumes "cl \<noteq> []"
  shows "length (remdups (map snd cl)) = 1 \<longleftrightarrow> (\<forall>p \<in> set cl. snd p = snd (hd cl))"
proof -
  have a: "length (remdups (map snd cl)) = card (set (map snd cl))"
    by (rule length_remdups_card_conv)
  have b: "card (set (map snd cl)) = 1 \<longleftrightarrow> (\<exists>v. set (map snd cl) = {v})"
    unfolding One_nat_def by (rule card_1_singleton_iff)
  have c: "(\<exists>v. set (map snd cl) = {v}) \<longleftrightarrow> (\<forall>p \<in> set cl. snd p = snd (hd cl))"
  proof
    assume "\<exists>v. set (map snd cl) = {v}"
    then obtain v where v: "set (map snd cl) = {v}" by blast
    then have "\<forall>p \<in> set cl. snd p = v" by auto
    moreover from assms have "hd cl \<in> set cl" by simp
    ultimately show "\<forall>p \<in> set cl. snd p = snd (hd cl)" by simp
  next
    assume a: "\<forall>p \<in> set cl. snd p = snd (hd cl)"
    from assms have h: "hd cl \<in> set cl" by simp
    have "snd ` set cl = {snd (hd cl)}"
    proof (rule equalityI)
      show "snd ` set cl \<subseteq> {snd (hd cl)}" using a by blast
      show "{snd (hd cl)} \<subseteq> snd ` set cl" using h by blast
    qed
    then have "set (map snd cl) = {snd (hd cl)}" by (simp only: set_map)
    then show "\<exists>v. set (map snd cl) = {v}" by blast
  qed
  show ?thesis unfolding a b c ..
qed

lemma collapse_cluster_run_peak: "cl \<noteq> [] \<Longrightarrow> collapse_cluster cl = run_peak cl"
proof -
  assume ne: "cl \<noteq> []"
  then obtain b ps where cl: "cl = b # ps" by (cases cl) auto
  show ?thesis
  proof (cases "length cl = 1")
    case True
    with cl show ?thesis by (simp add: collapse_cluster_def run_peak_def)
  next
    case False
    then show ?thesis
      unfolding collapse_cluster_def run_peak_def same_intensity_iff [OF ne]
      by (simp add: cl max_by_intensity_first_max)
  qed
qed

lemma np_diff_length: "length (np_diff (map fst ps)) = length ps - 1"
  by (simp add: np_diff_def)

lemma np_diff_nth:
  "i + 1 < length ps \<Longrightarrow> np_diff (map fst ps) ! i = fst (ps ! (i + 1)) - fst (ps ! i)"
  unfolding np_diff_def by (subst nth_map) (simp_all del: upt_Suc)


lemma cluster_loop_run:
  assumes "idx + 1 < length ps"
  shows "cluster_loop ps (np_diff (map fst ps)) idx cl
         = Inr (idx + 1 + length (run_tail (ps ! (idx + 1)) (drop (idx + 2) ps)),
                cl @ ps ! (idx + 1) # run_tail (ps ! (idx + 1)) (drop (idx + 2) ps))"
  using assms
proof (induction "length ps - idx" arbitrary: idx cl rule: less_induct)
  case less
  let ?ds = "np_diff (map fst ps)"
  have len: "length ?ds = length ps - 1" by (rule np_diff_length)
  show ?case
  proof (cases "idx + 2 < length ps")
    case False
    with less.prems have last: "idx + 1 = length ?ds" "drop (idx + 2) ps = []"
      using len by simp_all
    show ?thesis
      using less.prems last by (subst cluster_loop.simps) simp
  next
    case True
    then have dr: "drop (idx + 2) ps = ps ! (idx + 2) # drop (idx + 3) ps"
      by (simp add: Cons_nth_drop_Suc numeral_3_eq_3)
    from True have gap: "?ds ! (idx + 1) = fst (ps ! (idx + 2)) - fst (ps ! (idx + 1))"
      using np_diff_nth [of "idx + 1" ps] by (simp add: add.commute)
    from True len have ne: "idx + 1 \<noteq> length ?ds" "\<not> length ?ds \<le> idx + 1" by simp_all
    show ?thesis
    proof (cases "?ds ! (idx + 1) \<le> 1 / 10")
      case close: True
      have "cluster_loop ps ?ds idx cl = cluster_loop ps ?ds (idx + 1) (cl @ [ps ! (idx + 1)])"
        using less.prems ne close by (subst cluster_loop.simps) simp
      also have "\<dots> = Inr (idx + 1 + 1 + length (run_tail (ps ! (idx + 1 + 1)) (drop (idx + 1 + 2) ps)),
                (cl @ [ps ! (idx + 1)]) @ ps ! (idx + 1 + 1)
                   # run_tail (ps ! (idx + 1 + 1)) (drop (idx + 1 + 2) ps))"
        using True less.prems by (intro less.hyps) simp_all
      finally show ?thesis using close gap dr by (simp add: numeral_3_eq_3)
    next
      case far: False
      then show ?thesis
        using less.prems ne gap dr by (subst cluster_loop.simps) simp
    qed
  qed
qed


lemma centroid_spec_simps:
  "centroid_spec [] = []"
  "centroid_spec [p] = [p]"
  by (simp_all add: centroid_spec_def run_peak_def)

lemma centroid_spec_Cons:
  "centroid_spec (p # ps)
   = run_peak (p # run_tail p ps) # centroid_spec (drop (length (run_tail p ps)) ps)"
  unfolding centroid_spec_def by (subst mz_runs_Cons) simp

lemma centroid_loop_spec:
  assumes "idx \<le> length ps"
  shows "centroid_loop ps (np_diff (map fst ps)) idx acc = Inr (acc @ centroid_spec (drop idx ps))"
  using assms
proof (induction "length ps - idx" arbitrary: idx acc rule: less_induct)
  case less
  let ?ds = "np_diff (map fst ps)"
  have len: "length ?ds = length ps - 1" by (rule np_diff_length)
  consider (fin) "idx = length ps" | (lastp) "idx + 1 = length ps" | (more) "idx + 1 < length ps"
    using less.prems by linarith
  then show ?case
  proof cases
    case fin
    then show ?thesis by (subst centroid_loop.simps) (simp add: centroid_spec_simps)
  next
    case lastp
    then have "drop idx ps = [ps ! idx]"
      by (metis Cons_nth_drop_Suc Suc_eq_plus1 drop_all lessI order_refl)
    moreover from lastp len have "idx < length ps" "length ?ds \<le> idx" by arith+
    ultimately show ?thesis
      by (subst centroid_loop.simps) (simp add: centroid_spec_simps)
  next
    case more
    define p where "p = ps ! idx"
    define q where "q = ps ! (idx + 1)"
    define rest where "rest = drop (idx + 2) ps"
    from more have dr1: "drop (idx + 1) ps = q # rest"
      unfolding q_def rest_def by (simp add: Cons_nth_drop_Suc)
    from more have dr: "drop idx ps = p # q # rest"
      unfolding p_def using dr1 [symmetric] by (simp add: Cons_nth_drop_Suc)
    from more have gap: "?ds ! idx = fst q - fst p"
      unfolding p_def q_def by (rule np_diff_nth)
    from more len have inr: "idx < length ps" "\<not> length ?ds \<le> idx" by simp_all
    show ?thesis
    proof (cases "?ds ! idx > 1 / 10")
      case True
      have "centroid_loop ps ?ds idx acc = centroid_loop ps ?ds (idx + 1) (acc @ [ps ! idx])"
        using inr True by (subst centroid_loop.simps) simp
      also have "\<dots> = Inr ((acc @ [ps ! idx]) @ centroid_spec (drop (idx + 1) ps))"
        using more by (intro less.hyps) simp_all
      also have "\<dots> = Inr (acc @ centroid_spec (drop idx ps))"
        using True gap unfolding dr dr1 centroid_spec_Cons [of p] p_def [symmetric]
        by (simp add: run_peak_def)
      finally show ?thesis .
    next
      case False
      define m where "m = length (run_tail q rest)"
      have m: "idx + 2 + m \<le> length ps"
        using run_tail_length [of q rest] more unfolding m_def rest_def by simp
      have cl: "cluster_loop ps ?ds idx [ps ! idx] = Inr (idx + 1 + m, p # q # run_tail q rest)"
        using cluster_loop_run [OF more, of "[ps ! idx]"]
        unfolding m_def p_def q_def rest_def by simp
      have rt: "run_tail p (q # rest) = q # run_tail q rest"
        using False gap by simp
      have "centroid_loop ps ?ds idx acc
            = centroid_loop ps ?ds (idx + 1 + m + 1)
                (acc @ [collapse_cluster (p # q # run_tail q rest)])"
        using inr False cl by (subst centroid_loop.simps) simp
      also have "\<dots> = Inr ((acc @ [collapse_cluster (p # q # run_tail q rest)])
                          @ centroid_spec (drop (idx + 1 + m + 1) ps))"
        using m more by (intro less.hyps) simp_all
      also have "drop (idx + 1 + m + 1) ps = drop m rest"
        unfolding rest_def by (simp add: add.commute add.left_commute)
      also have "collapse_cluster (p # q # run_tail q rest) = run_peak (p # q # run_tail q rest)"
        by (rule collapse_cluster_run_peak) simp
      finally show ?thesis
        unfolding dr centroid_spec_Cons [of p] rt by (simp add: m_def)
    qed
  qed
qed

lemma centroid_eq_spec:
  "centroid s = Inr (s\<lparr>peaks := centroid_spec (peaks s)\<rparr>)"
proof (cases "length (peaks s) \<le> 1")
  case True
  then have "centroid_spec (peaks s) = peaks s"
    by (cases "peaks s" rule: mz_runs.cases) (simp_all add: centroid_spec_simps)
  with True show ?thesis by (simp add: centroid_def)
next
  case False
  with centroid_loop_spec [of 0 "peaks s" "[]"] show ?thesis
    by (simp add: centroid_def)
qed

text \<open>\<open>separated\<close>: every gap between neighbours exceeds 0.1.\<close>

fun separated :: "peak list \<Rightarrow> bool" where
  "separated [] = True"
| "separated [p] = True"
| "separated (p # q # ps) = (fst q - fst p > 1 / 10 \<and> separated (q # ps))"

lemma separated_fixed: "separated ps \<Longrightarrow> centroid_spec ps = ps"
proof (induction ps rule: separated.induct)
  case (3 p q ps)
  then show ?case by (simp add: centroid_spec_Cons [of p] run_peak_def)
qed (simp_all add: centroid_spec_simps)

lemma separated_sorted: "separated ps \<Longrightarrow> sorted (map fst ps)"
  by (induction ps rule: separated.induct) auto

lemma run_tail_take: "run_tail p ps = take (length (run_tail p ps)) ps"
  by (induction ps arbitrary: p) auto

lemma run_tail_stop:
  "drop (length (run_tail p ps)) ps = q # rest \<Longrightarrow>
   fst q - fst (last (p # run_tail p ps)) > 1 / 10"
proof (induction ps arbitrary: p)
  case Nil
  then show ?case by simp
next
  case (Cons a ps)
  show ?case
  proof (cases "fst a - fst p \<le> 1 / 10")
    case True
    with Cons.prems have "drop (length (run_tail a ps)) ps = q # rest" by simp
    from Cons.IH [OF this] True show ?thesis by simp
  next
    case False
    with Cons.prems show ?thesis by simp
  qed
qed

lemma first_max_peak_mem: "r \<noteq> [] \<Longrightarrow> first_max_peak r \<in> set r"
proof -
  assume ne: "r \<noteq> []"
  then have "Max (set (map snd r)) \<in> set (map snd r)" by (intro Max_in) simp_all
  then obtain p where "p \<in> set r" "snd p = Max (set (map snd r))" by auto
  then have "filter (\<lambda>p. snd p = Max (set (map snd r))) r \<noteq> []"
    by (auto simp: filter_empty_conv)
  then have "hd (filter (\<lambda>p. snd p = Max (set (map snd r))) r)
             \<in> set (filter (\<lambda>p. snd p = Max (set (map snd r))) r)"
    by (rule hd_in_set)
  then show ?thesis unfolding first_max_peak_def by simp
qed

lemma sorted_mz_bounds:
  assumes "sorted (map fst r)" and "p \<in> set r"
  shows "fst (hd r) \<le> fst p \<and> fst p \<le> fst (last r)"
proof -
  from assms(2) obtain i where i: "i < length r" "r ! i = p" by (auto simp: in_set_conv_nth)
  then have ne: "r \<noteq> []" by auto
  have "map fst r ! 0 \<le> map fst r ! i" using assms(1) i by (intro sorted_nth_mono) simp_all
  moreover have "map fst r ! i \<le> map fst r ! (length r - 1)"
    using assms(1) i by (intro sorted_nth_mono) simp_all
  ultimately show ?thesis using i ne by (simp add: hd_conv_nth last_conv_nth)
qed

lemma sum_list_bounds:
  fixes xs :: "rat list"
  assumes "\<forall>x \<in> set xs. a \<le> x \<and> x \<le> b"
  shows "of_nat (length xs) * a \<le> sum_list xs \<and> sum_list xs \<le> of_nat (length xs) * b"
  using assms by (induction xs) (auto simp: algebra_simps)

lemma mean_bounds:
  fixes xs :: "rat list"
  assumes "xs \<noteq> []" and "\<forall>x \<in> set xs. a \<le> x \<and> x \<le> b"
  shows "a \<le> sum_list xs / of_nat (length xs) \<and> sum_list xs / of_nat (length xs) \<le> b"
proof -
  from assms(1) have pos: "(0::rat) < of_nat (length xs)" by simp
  from sum_list_bounds [OF assms(2)] pos show ?thesis
    by (simp add: pos_le_divide_eq pos_divide_le_eq mult.commute)
qed

lemma run_peak_bounds:
  assumes "sorted (map fst r)" and "r \<noteq> []"
  shows "fst (hd r) \<le> fst (run_peak r) \<and> fst (run_peak r) \<le> fst (last r)"
proof -
  have all: "\<forall>x \<in> set (map fst r). fst (hd r) \<le> x \<and> x \<le> fst (last r)"
    using sorted_mz_bounds [OF assms(1)] by auto
  consider (one) "length r = 1"
    | (mean) "length r \<noteq> 1" "\<forall>p \<in> set r. snd p = snd (hd r)"
    | (maxp) "length r \<noteq> 1" "\<not> (\<forall>p \<in> set r. snd p = snd (hd r))"
    by blast
  then show ?thesis
  proof cases
    case one
    then have "run_peak r = hd r" by (simp add: run_peak_def)
    moreover from assms(2) have "hd r \<in> set r" by simp
    ultimately show ?thesis using sorted_mz_bounds [OF assms(1)] by simp
  next
    case mean
    then have "fst (run_peak r) = sum_list (map fst r) / of_nat (length (map fst r))"
      by (simp add: run_peak_def)
    moreover from assms(2) have "map fst r \<noteq> []" by simp
    ultimately show ?thesis using mean_bounds [OF _ all] by simp
  next
    case maxp
    then have "run_peak r = first_max_peak r" unfolding run_peak_def by (simp only: if_False)
    with first_max_peak_mem [OF assms(2)] sorted_mz_bounds [OF assms(1)] show ?thesis by simp
  qed
qed

lemma centroid_spec_nonempty: "ps \<noteq> [] \<Longrightarrow> centroid_spec ps \<noteq> []"
  by (cases ps) (simp_all add: centroid_spec_Cons)

lemma centroid_spec_separated:
  "sorted (map fst ps) \<Longrightarrow>
   separated (centroid_spec ps) \<and> (ps \<noteq> [] \<longrightarrow> fst (hd ps) \<le> fst (hd (centroid_spec ps)))"
proof (induction "length ps" arbitrary: ps rule: less_induct)
  case less
  show ?case
  proof (cases ps)
    case Nil
    then show ?thesis by (simp add: centroid_spec_simps)
  next
    case (Cons p qs)
    define run where "run = p # run_tail p qs"
    define rest where "rest = drop (length (run_tail p qs)) qs"
    have cs: "centroid_spec ps = run_peak run # centroid_spec rest"
      unfolding Cons run_def rest_def by (rule centroid_spec_Cons)
    have "run = take (Suc (length (run_tail p qs))) ps"
      unfolding run_def Cons using run_tail_take [of p qs] by simp
    then have "map fst run = take (Suc (length (run_tail p qs))) (map fst ps)"
      by (simp add: take_map)
    with less.prems have srun: "sorted (map fst run)" by (simp add: sorted_wrt_take)
    have rne: "run \<noteq> []" unfolding run_def by simp
    note rb = run_peak_bounds [OF srun rne]
    have hdrun: "hd run = p" unfolding run_def by simp
    have "map fst rest = drop (length (run_tail p qs)) (map fst qs)"
      unfolding rest_def by (simp add: drop_map)
    with less.prems Cons have srest: "sorted (map fst rest)" by (simp add: sorted_wrt_drop)
    have lrest: "length rest < length ps" unfolding rest_def Cons by simp
    note IH = less.hyps [OF lrest srest]
    have sep: "separated (centroid_spec ps)"
    proof (cases rest)
      case Nil
      then show ?thesis unfolding cs by (simp add: centroid_spec_simps)
    next
      case (Cons q rest')
      then have "fst q - fst (last run) > 1 / 10"
        unfolding rest_def run_def by (rule run_tail_stop)
      moreover from IH Cons have "fst q \<le> fst (hd (centroid_spec rest))" by simp
      moreover from Cons have "centroid_spec rest \<noteq> []"
        by (intro centroid_spec_nonempty) simp
      then obtain c cs' where c: "centroid_spec rest = c # cs'"
        by (cases "centroid_spec rest") auto
      ultimately have "fst c - fst (run_peak run) > 1 / 10" using rb by simp
      with IH c show ?thesis unfolding cs by simp
    qed
    moreover have "fst (hd ps) \<le> fst (hd (centroid_spec ps))"
      unfolding cs using rb hdrun Cons by simp
    ultimately show ?thesis by simp
  qed
qed

lemma centroid_ascending:
  "mz_ascending s \<Longrightarrow> centroid s = Inr s' \<Longrightarrow> mz_ascending s'"
  using centroid_spec_separated [of "peaks s"] separated_sorted [of "centroid_spec (peaks s)"]
  by (auto simp: centroid_eq_spec mz_ascending_def)

lemma mz_runs_length: "length (mz_runs ps) \<le> length ps"
proof (induction ps rule: mz_runs.induct)
  case (3 p q ps)
  obtain r rs where r: "mz_runs (q # ps) = (q # r) # rs" using mz_runs_hd by blast
  with 3 show ?case by auto
qed simp_all

text \<open>
  C3. centroid returns the peaks \<open>map run_peak (mz_runs peaks)\<close> (for every spectrum,
  so also for length \<open>\<ge> 2\<close>): the runs concatenate to the peak list, none is empty,
  inside a run every consecutive gap is at most 0.1, between neighbouring runs the gap
  exceeds 0.1 (the runs are maximal), and each run gives the peak \<open>run_peak\<close> describes.
  The peaks \<open>[[100.00,10],[100.05,5],[250.00,8]]\<close> centroid to \<open>[[100.00,10],[250.00,8]]\<close>.
\<close>

theorem centroid_collapses_runs:
  "centroid s = Inr (s\<lparr>peaks := map run_peak (mz_runs (peaks s))\<rparr>)
   \<and> concat (mz_runs (peaks s)) = peaks s
   \<and> [] \<notin> set (mz_runs (peaks s))
   \<and> list_all close_chain (mz_runs (peaks s))
   \<and> runs_apart (mz_runs (peaks s))
   \<and> centroid \<lparr>peaks = [(100, 10), (10005 / 100, 5), (250, 8)], prec_mz = pm, charge = ch,
                retention_time = rt\<rparr>
       = Inr \<lparr>peaks = [(100, 10), (250, 8)], prec_mz = pm, charge = ch, retention_time = rt\<rparr>"
proof -
  have a: "centroid s = Inr (s\<lparr>peaks := map run_peak (mz_runs (peaks s))\<rparr>)"
    using centroid_eq_spec [of s] by (simp only: centroid_spec_def)
  have e: "centroid \<lparr>peaks = [(100, 10), (10005 / 100, 5), (250, 8)], prec_mz = pm, charge = ch,
                retention_time = rt\<rparr>
       = Inr \<lparr>peaks = [(100, 10), (250, 8)], prec_mz = pm, charge = ch, retention_time = rt\<rparr>"
    by (simp add: centroid_eq_spec centroid_spec_def run_peak_def first_max_peak_def)
  from a e mz_runs_concat [of "peaks s"] mz_runs_nonempty [of "peaks s"]
    mz_runs_close [of "peaks s"] mz_runs_apart [of "peaks s"]
  show ?thesis by blast
qed

theorem centroid_collapses_runs_witness:
  "2 \<le> length (peaks \<lparr>peaks = [(100, 7), (10005 / 100, 7), (10012 / 100, 7), (250, 8), (25005 / 100, 9),
                  (25008 / 100, 9), (400, 1)], prec_mz = 500, charge = Some 2, retention_time = None\<rparr>)
   \<and> centroid \<lparr>peaks = [(100, 7), (10005 / 100, 7), (10012 / 100, 7), (250, 8), (25005 / 100, 9),
                  (25008 / 100, 9), (400, 1)], prec_mz = 500, charge = Some 2, retention_time = None\<rparr>
     = Inr \<lparr>peaks = [(30017 / 300, 7), (25005 / 100, 9), (400, 1)], prec_mz = 500, charge = Some 2,
            retention_time = None\<rparr>"
proof -
  let ?ps = "[(100, 7), (10005 / 100, 7), (10012 / 100, 7), (250, 8), (25005 / 100, 9),
                  (25008 / 100, 9), (400, 1)] :: peak list"
  let ?s = "\<lparr>peaks = ?ps, prec_mz = 500, charge = Some 2, retention_time = None\<rparr>"
  have h: "2 \<le> length (peaks ?s)" by simp
  have runs: "mz_runs ?ps = [[(100, 7), (10005 / 100, 7), (10012 / 100, 7)],
                  [(250, 8), (25005 / 100, 9), (25008 / 100, 9)], [(400, 1)]]"
    by simp
  have "map run_peak (mz_runs ?ps) = [(30017 / 300, 7), (25005 / 100, 9), (400, 1)]"
    unfolding runs by (simp add: run_peak_def first_max_peak_def)
  with centroid_collapses_runs [of ?s 0 None None] h show ?thesis by simp
qed

subsection \<open>normalize and item assignment\<close>

text \<open>
  \<open>max_intensity\<close>: \<open>self.intensity.max()\<close> raises ValueError on an empty array.
  \<open>normalize\<close> divides every intensity by it. For a maximum of 0 numpy does not raise:
  the intensities become inf or nan, which the rationals cannot express; the model marks
  that case \<open>NonFiniteResult\<close>. The mz column is never written.
\<close>

definition max_intensity :: "Spectrum \<Rightarrow> error + rat" where
  "max_intensity s =
     (if peaks s = [] then Inl ValueError else Inr (Max (set (map snd (peaks s)))))"

definition normalize :: "Spectrum \<Rightarrow> error + Spectrum" where
  "normalize s =
     (case max_intensity s of
        Inl e \<Rightarrow> Inl e
      | Inr m \<Rightarrow> if m = 0 then Inl NonFiniteResult
                 else Inr (s\<lparr>peaks := map (\<lambda>p. (fst p, snd p / m)) (peaks s)\<rparr>))"

text \<open>
  \<open>__setitem__\<close> for an integer key and a row value: \<open>self._peaks[key] = value\<close>.
  Negative keys count from the end; a key out of range raises IndexError. Nothing is
  sorted afterwards.
\<close>

definition setitem :: "Spectrum \<Rightarrow> int \<Rightarrow> peak \<Rightarrow> error + Spectrum" where
  "setitem s key v =
     (let n = int (length (peaks s)); k = (if key < 0 then key + n else key)
      in if 0 \<le> k \<and> k < n then Inr (s\<lparr>peaks := (peaks s)[nat k := v]\<rparr>)
         else Inl IndexError)"

lemma run_peak_mem:
  assumes "r \<noteq> []" and "length r = 1 \<or> (\<exists>p \<in> set r. snd p \<noteq> snd (hd r))"
  shows "run_peak r \<in> set r"
proof (cases "length r = 1")
  case True
  with assms(1) show ?thesis by (simp add: run_peak_def)
next
  case False
  with assms(2) have "\<not> (\<forall>p \<in> set r. snd p = snd (hd r))" by blast
  with False have "run_peak r = first_max_peak r"
    unfolding run_peak_def by (simp only: if_False)
  with first_max_peak_mem [OF assms(1)] show ?thesis by simp
qed

lemma mz_runs_subset: "r \<in> set (mz_runs ps) \<Longrightarrow> set r \<subseteq> set ps"
  using mz_runs_concat [of ps] by (metis UN_I set_concat subsetI)

text \<open>
  C4, as amended. The code computes the mean of a cluster of equal intensities as
  \<open>sum(...) / float(len(...))\<close> in double arithmetic, and the rounded mean can lie one
  unit in the last place outside the cluster, whereas \<open>collapse_cluster\<close> averages
  exactly. The statement is therefore about the spectra for which no mean is computed: on
  a spectrum whose peaks are mz-ascending and in which every run of two or more close
  peaks holds two different intensities, centroid returns a spectrum that centroid leaves
  unchanged. Every peak of the result is a peak of the input, neighbouring peaks of the
  result are more than 0.1 apart, and the result is no longer than the input and
  mz-ascending.
\<close>

theorem centroid_idempotent:
  assumes "mz_ascending s"
    and "\<forall>r \<in> set (mz_runs (peaks s)). length r = 1 \<or> (\<exists>p \<in> set r. snd p \<noteq> snd (hd r))"
  shows "\<exists>c. centroid s = Inr c \<and> centroid c = Inr c \<and> separated (peaks c)
             \<and> set (peaks c) \<subseteq> set (peaks s)
             \<and> length (peaks c) \<le> length (peaks s) \<and> mz_ascending c"
proof -
  let ?c = "s\<lparr>peaks := centroid_spec (peaks s)\<rparr>"
  from assms(1) have sep: "separated (peaks ?c)"
    using centroid_spec_separated [of "peaks s"] by (simp add: mz_ascending_def)
  then have "centroid_spec (peaks ?c) = peaks ?c"
    by (rule separated_fixed)
  then have again: "centroid ?c = Inr ?c"
    by (simp add: centroid_eq_spec)
  have sub: "set (peaks ?c) \<subseteq> set (peaks s)"
  proof
    fix p assume "p \<in> set (peaks ?c)"
    then obtain r where r: "r \<in> set (mz_runs (peaks s))" and p: "p = run_peak r"
      by (auto simp: centroid_spec_def)
    from r mz_runs_nonempty [of "peaks s"] have "r \<noteq> []" by auto
    from run_peak_mem [OF this] assms(2) r have "run_peak r \<in> set r" by blast
    with mz_runs_subset [OF r] p show "p \<in> set (peaks s)" by blast
  qed
  have len: "length (peaks ?c) \<le> length (peaks s)"
    using mz_runs_length [of "peaks s"] by (simp add: centroid_spec_def)
  have asc: "mz_ascending ?c"
    using separated_sorted [OF sep] by (simp add: mz_ascending_def)
  from centroid_eq_spec [of s] again sep sub len asc show ?thesis by blast
qed

theorem centroid_idempotent_witness:
  "mz_ascending \<lparr>peaks = [(100, 1), (10008 / 100, 10), (10016 / 100, 10), (10030 / 100, 5)],
                  prec_mz = 500, charge = None, retention_time = None\<rparr>
   \<and> mz_runs [(100, 1), (10008 / 100, 10), (10016 / 100, 10), (10030 / 100, 5)]
      = [[(100, 1), (10008 / 100, 10), (10016 / 100, 10)], [(10030 / 100, 5)]]
   \<and> (\<exists>c. centroid \<lparr>peaks = [(100, 1), (10008 / 100, 10), (10016 / 100, 10), (10030 / 100, 5)],
                  prec_mz = 500, charge = None, retention_time = None\<rparr> = Inr c
          \<and> centroid c = Inr c)
   \<and> centroid \<lparr>peaks = [(100, 1), (10008 / 100, 10), (10016 / 100, 10), (10030 / 100, 5)],
                  prec_mz = 500, charge = None, retention_time = None\<rparr>
      = Inr \<lparr>peaks = [(10008 / 100, 10), (10030 / 100, 5)],
                  prec_mz = 500, charge = None, retention_time = None\<rparr>"
proof -
  let ?ps = "[(100, 1), (10008 / 100, 10), (10016 / 100, 10), (10030 / 100, 5)] :: peak list"
  let ?s = "\<lparr>peaks = ?ps, prec_mz = 500, charge = None, retention_time = None\<rparr> :: Spectrum"
  have h: "mz_ascending ?s" by (simp add: mz_ascending_def)
  have runs: "mz_runs ?ps = [[(100, 1), (10008 / 100, 10), (10016 / 100, 10)], [(10030 / 100, 5)]]"
    by simp
  have h2: "\<forall>r \<in> set (mz_runs (peaks ?s)). length r = 1 \<or> (\<exists>p \<in> set r. snd p \<noteq> snd (hd r))"
    by (simp add: runs)
  from centroid_idempotent [OF h h2]
  have ex: "\<exists>c. centroid ?s = Inr c \<and> centroid c = Inr c" by blast
  have v: "centroid ?s = Inr \<lparr>peaks = [(10008 / 100, 10), (10030 / 100, 5)],
                  prec_mz = 500, charge = None, retention_time = None\<rparr>"
    by (simp add: centroid_eq_spec centroid_spec_def run_peak_def first_max_peak_def)
  from h runs ex v show ?thesis by blast
qed

text \<open>
  C4, the counterexample: a peak array put out of mz order by an item assignment. The
  constructed spectrum has mz 100, 100.03, 100.06; assigning the row (99.95, 1) at index 1
  gives the gaps -0.05 and 0.11, so centroid merges the first two peaks only and returns
  mz 100, 100.06; a second centroid merges these two.
\<close>

theorem centroid_not_idempotent_out_of_order:
  "Spectrum_of_list [[100, 10], [10003 / 100, 1], [10006 / 100, 5]] 500 None None
     = Inr \<lparr>peaks = [(100, 10), (10003 / 100, 1), (10006 / 100, 5)], prec_mz = 500,
            charge = None, retention_time = None\<rparr>
   \<and> setitem \<lparr>peaks = [(100, 10), (10003 / 100, 1), (10006 / 100, 5)], prec_mz = 500,
            charge = None, retention_time = None\<rparr> 1 (9995 / 100, 1)
     = Inr \<lparr>peaks = [(100, 10), (9995 / 100, 1), (10006 / 100, 5)], prec_mz = 500,
            charge = None, retention_time = None\<rparr>
   \<and> centroid \<lparr>peaks = [(100, 10), (9995 / 100, 1), (10006 / 100, 5)], prec_mz = 500,
            charge = None, retention_time = None\<rparr>
     = Inr \<lparr>peaks = [(100, 10), (10006 / 100, 5)], prec_mz = 500,
            charge = None, retention_time = None\<rparr>
   \<and> centroid \<lparr>peaks = [(100, 10), (10006 / 100, 5)], prec_mz = 500,
            charge = None, retention_time = None\<rparr>
     = Inr \<lparr>peaks = [(100, 10)], prec_mz = 500, charge = None, retention_time = None\<rparr>"
  by (simp add: Spectrum_of_list_def np_array_def Spectrum_init_def mz_sort_def row_to_peak_def
      setitem_def centroid_eq_spec centroid_spec_def run_peak_def first_max_peak_def)

lemma normalize_ascending:
  "mz_ascending s \<Longrightarrow> normalize s = Inr s' \<Longrightarrow> mz_ascending s'"
  by (auto simp: normalize_def mz_ascending_def comp_def split: sum.splits if_splits)

lemma remove_itraq_ascending:
  "mz_ascending s \<Longrightarrow> mz_ascending (remove_itraq ms tol s)"
  unfolding mz_ascending_def remove_itraq_filter by (rule sorted_filter)

text \<open>
  C5, as amended. The constructor yields mz-ascending peaks; normalize, centroid and
  remove\_itraq keep mz-ascending peaks mz-ascending; the spectrum returned by denoise is
  mz-ascending. Item assignment is not among them: it writes the row and does not sort.
\<close>

theorem operations_keep_mz_ascending:
  "(Spectrum_init arr pmz ch rt = Inr s0 \<longrightarrow> mz_ascending s0)
   \<and> (mz_ascending s \<and> normalize s = Inr s1 \<longrightarrow> mz_ascending s1)
   \<and> (mz_ascending s \<and> centroid s = Inr s2 \<longrightarrow> mz_ascending s2)
   \<and> (mz_ascending s \<longrightarrow> mz_ascending (remove_itraq ms tol s))
   \<and> (denoise s assigned_peaks max_peaks_per_window = Inr (idxs, s3) \<longrightarrow> mz_ascending s3)"
  using Spectrum_init_ascending normalize_ascending centroid_ascending remove_itraq_ascending
    denoise_ascending
  by blast

theorem operations_keep_mz_ascending_witness:
  "Spectrum_init (NdArray 2 [[200, 4], [100, 2], [10005 / 100, 1]]) 500 None None
     = Inr \<lparr>peaks = [(100, 2), (10005 / 100, 1), (200, 4)], prec_mz = 500, charge = None,
            retention_time = None\<rparr>
   \<and> normalize \<lparr>peaks = [(100, 2), (10005 / 100, 1), (200, 4)], prec_mz = 500, charge = None,
            retention_time = None\<rparr>
     = Inr \<lparr>peaks = [(100, 1 / 2), (10005 / 100, 1 / 4), (200, 1)], prec_mz = 500, charge = None,
            retention_time = None\<rparr>
   \<and> mz_ascending \<lparr>peaks = [(100, 2), (10005 / 100, 1), (200, 4)], prec_mz = 500, charge = None,
            retention_time = None\<rparr>
   \<and> mz_ascending \<lparr>peaks = [(100, 1 / 2), (10005 / 100, 1 / 4), (200, 1)], prec_mz = 500,
            charge = None, retention_time = None\<rparr>
   \<and> mz_ascending (remove_itraq [100] (1 / 10)
        \<lparr>peaks = [(100, 2), (10005 / 100, 1), (200, 4)], prec_mz = 500, charge = None,
            retention_time = None\<rparr>)"
proof -
  let ?arr = "NdArray 2 [[200, 4], [100, 2], [10005 / 100, 1]]"
  let ?s = "\<lparr>peaks = [(100, 2), (10005 / 100, 1), (200, 4)], prec_mz = 500, charge = None,
            retention_time = None\<rparr> :: Spectrum"
  let ?n = "\<lparr>peaks = [(100, 1 / 2), (10005 / 100, 1 / 4), (200, 1)], prec_mz = 500,
            charge = None, retention_time = None\<rparr> :: Spectrum"
  have i: "Spectrum_init ?arr 500 None None = Inr ?s"
    by (simp add: Spectrum_init_def mz_sort_def row_to_peak_def)
  have n: "normalize ?s = Inr ?n"
    by (simp add: normalize_def max_intensity_def)
  note t = operations_keep_mz_ascending [of ?arr 500 None None ?s ?s ?n _ "[100]" "1 / 10"]
  from t i have a: "mz_ascending ?s" by blast
  from t a n have b: "mz_ascending ?n" by blast
  from t a have c: "mz_ascending (remove_itraq [100] (1 / 10) ?s)" by blast
  from i n a b c show ?thesis by blast
qed

text \<open>
  C5, the counterexample: assigning the row (300, 1) at index 0 of the constructed
  spectrum with mz 100, 200, 250 leaves the mz values 300, 200, 250.
\<close>

theorem setitem_breaks_mz_order:
  "Spectrum_of_list [[100, 1], [200, 1], [250, 3]] 500 None None
     = Inr \<lparr>peaks = [(100, 1), (200, 1), (250, 3)], prec_mz = 500, charge = None,
            retention_time = None\<rparr>
   \<and> mz_ascending \<lparr>peaks = [(100, 1), (200, 1), (250, 3)], prec_mz = 500, charge = None,
            retention_time = None\<rparr>
   \<and> setitem \<lparr>peaks = [(100, 1), (200, 1), (250, 3)], prec_mz = 500, charge = None,
            retention_time = None\<rparr> 0 (300, 1)
     = Inr \<lparr>peaks = [(300, 1), (200, 1), (250, 3)], prec_mz = 500, charge = None,
            retention_time = None\<rparr>
   \<and> \<not> mz_ascending \<lparr>peaks = [(300, 1), (200, 1), (250, 3)], prec_mz = 500, charge = None,
            retention_time = None\<rparr>"
  by (simp add: Spectrum_of_list_def np_array_def Spectrum_init_def mz_sort_def row_to_peak_def
      mz_ascending_def setitem_def)

section \<open>The Unimod database (rPTMDetermine/readers/ptmdb.py)\<close>

text \<open>
  The table \<open>mods\<close> is the list of its rows in rowid order (\<open>mod_id\<close> is the integer
  primary key); \<open>fetchone\<close> after a \<open>SELECT ... WHERE col = ?\<close> gives the first matching
  row of that list, or \<open>None\<close>. SQLite compares text with \<open>=\<close> byte by byte. Strings are
  ASCII: \<open>str.lower\<close> and the class \<open>\w\<close> are modelled on the letters A-Z, a-z, the
  digits and the underscore. Masses are exact rationals. The \<open>lru_cache\<close> decorators do
  not change what the methods return.
\<close>

datatype MassType = mono | avg

record mods_row =
  mod_id :: int
  name :: string
  full_name :: string
  mono_mass :: rat
  avg_mass :: rat
  composition :: string

text \<open>The attributes of one \<open>mod\<close> element of the Unimod XML file and of its \<open>delta\<close>.\<close>

record unimod_mod =
  record_id :: int
  title :: string
  xml_full_name :: string
  xml_mono_mass :: rat
  xml_avge_mass :: rat
  xml_composition :: string

definition lower_char :: "char \<Rightarrow> char" where
  "lower_char c =
     (let n = of_char c :: nat in if 65 \<le> n \<and> n \<le> 90 then char_of (n + 32) else c)"

definition py_lower :: "string \<Rightarrow> string" where
  "py_lower s = map lower_char s"

text \<open>\<open>s.replace(" ", "")\<close>\<close>

definition remove_spaces :: "string \<Rightarrow> string" where
  "remove_spaces s = filter (\<lambda>c. c \<noteq> CHR '' '') s"

text \<open>The \<open>INSERT INTO mods\<close> of \<open>_initialize\<close>, one row per \<open>mod\<close> element.\<close>

definition mods_row_of :: "unimod_mod \<Rightarrow> mods_row" where
  "mods_row_of e =
     \<lparr>mod_id = record_id e, name = title e,
      full_name = py_lower (remove_spaces (xml_full_name e)),
      mono_mass = xml_mono_mass e, avg_mass = xml_avge_mass e,
      composition = xml_composition e\<rparr>"

definition PTMDB_initialize :: "unimod_mod list \<Rightarrow> mods_row list" where
  "PTMDB_initialize elements = map mods_row_of elements"

text \<open>
  \<open>_get_row_by_name\<close>: the row whose \<open>name\<close> is the argument, else the row whose
  \<open>full_name\<close> is \<open>name.lower()\<close>, else ModificationNotFoundException.
\<close>

definition get_row_by_name :: "mods_row list \<Rightarrow> string \<Rightarrow> error + mods_row" where
  "get_row_by_name mods nm =
     (case find (\<lambda>r. name r = nm) mods of
        Some res \<Rightarrow> Inr res
      | None \<Rightarrow>
          (case find (\<lambda>r. full_name r = py_lower nm) mods of
             Some res \<Rightarrow> Inr res
           | None \<Rightarrow> Inl ModificationNotFoundException))"

text \<open>\<open>_get_mass_col\<close> and \<open>get_mass\<close>.\<close>

definition get_mass_col :: "MassType \<Rightarrow> mods_row \<Rightarrow> rat" where
  "get_mass_col mass_type = (if mass_type = mono then mono_mass else avg_mass)"

definition get_mass :: "mods_row list \<Rightarrow> string \<Rightarrow> MassType \<Rightarrow> error + rat" where
  "get_mass mods nm mass_type =
     (case get_row_by_name mods nm of
        Inl e \<Rightarrow> Inl e
      | Inr res \<Rightarrow> Inr (get_mass_col mass_type res))"


lemma find_name_hit:
  "find P xs = Some r \<Longrightarrow> r \<in> set xs \<and> P r"
  by (induction xs) (auto split: if_splits)

text \<open>
  C7, as amended. get\_mass returns the requested mass of a row whose name is the query
  when there is one; otherwise that of a row whose stored full\_name equals the lowercased
  query when there is one; it raises ModificationNotFoundException, and nothing else,
  exactly when no row has the query as name or the lowercased query as full\_name. The
  stored full\_name of a row is the element's full name with spaces removed, lowercased.
  Spaces of the query are not removed.
\<close>

theorem get_mass_name_then_full_name:
  "((\<exists>r \<in> set mods. name r = nm) \<longrightarrow>
      (\<exists>r \<in> set mods. name r = nm \<and> get_mass mods nm mass_type = Inr (get_mass_col mass_type r)))
   \<and> ((\<forall>r \<in> set mods. name r \<noteq> nm) \<and> (\<exists>r \<in> set mods. full_name r = py_lower nm) \<longrightarrow>
      (\<exists>r \<in> set mods. full_name r = py_lower nm
         \<and> get_mass mods nm mass_type = Inr (get_mass_col mass_type r)))
   \<and> (get_mass mods nm mass_type = Inl ModificationNotFoundException \<longleftrightarrow>
        (\<forall>r \<in> set mods. name r \<noteq> nm \<and> full_name r \<noteq> py_lower nm))
   \<and> (\<forall>e. get_mass mods nm mass_type = Inl e \<longrightarrow> e = ModificationNotFoundException)
   \<and> (\<forall>r \<in> set (PTMDB_initialize elements).
        \<exists>e \<in> set elements. name r = title e
          \<and> full_name r = py_lower (remove_spaces (xml_full_name e)))"
proof -
  have a: "(\<exists>r \<in> set mods. name r = nm) \<longrightarrow>
      (\<exists>r \<in> set mods. name r = nm \<and> get_mass mods nm mass_type = Inr (get_mass_col mass_type r))"
  proof
    assume "\<exists>r \<in> set mods. name r = nm"
    then obtain r where "find (\<lambda>r. name r = nm) mods = Some r"
      by (cases "find (\<lambda>r. name r = nm) mods") (auto simp: find_None_iff)
    then show "\<exists>r \<in> set mods. name r = nm
                 \<and> get_mass mods nm mass_type = Inr (get_mass_col mass_type r)"
      using find_name_hit [of "\<lambda>r. name r = nm" mods r]
      by (auto simp: get_mass_def get_row_by_name_def)
  qed
  have b: "(\<forall>r \<in> set mods. name r \<noteq> nm) \<and> (\<exists>r \<in> set mods. full_name r = py_lower nm) \<longrightarrow>
      (\<exists>r \<in> set mods. full_name r = py_lower nm
         \<and> get_mass mods nm mass_type = Inr (get_mass_col mass_type r))"
  proof
    assume h: "(\<forall>r \<in> set mods. name r \<noteq> nm) \<and> (\<exists>r \<in> set mods. full_name r = py_lower nm)"
    then have n: "find (\<lambda>r. name r = nm) mods = None" by (auto simp: find_None_iff)
    from h obtain r where f: "find (\<lambda>r. full_name r = py_lower nm) mods = Some r"
      by (cases "find (\<lambda>r. full_name r = py_lower nm) mods") (auto simp: find_None_iff)
    show "\<exists>r \<in> set mods. full_name r = py_lower nm
            \<and> get_mass mods nm mass_type = Inr (get_mass_col mass_type r)"
      using find_name_hit [OF f] n f by (auto simp: get_mass_def get_row_by_name_def)
  qed
  have c: "get_mass mods nm mass_type = Inl ModificationNotFoundException \<longleftrightarrow>
        (\<forall>r \<in> set mods. name r \<noteq> nm \<and> full_name r \<noteq> py_lower nm)"
    by (auto simp: get_mass_def get_row_by_name_def find_None_iff split: option.splits
             dest: find_name_hit)
  have d: "\<forall>e. get_mass mods nm mass_type = Inl e \<longrightarrow> e = ModificationNotFoundException"
    by (auto simp: get_mass_def get_row_by_name_def split: option.splits sum.splits)
  have e: "\<forall>r \<in> set (PTMDB_initialize elements).
        \<exists>e \<in> set elements. name r = title e
          \<and> full_name r = py_lower (remove_spaces (xml_full_name e))"
    by (auto simp: PTMDB_initialize_def mods_row_of_def)
  from a b c d e show ?thesis by blast
qed


theorem get_mass_name_then_full_name_witness:
  "get_mass (PTMDB_initialize
       [\<lparr>record_id = 1, title = ''Acetyl'', xml_full_name = ''Acetylation'',
          xml_mono_mass = 42010565 / 1000000, xml_avge_mass = 420367 / 10000,
          xml_composition = ''H(2) C(2) O''\<rparr>,
        \<lparr>record_id = 35, title = ''Oxidation'', xml_full_name = ''Oxidation or Hydroxylation'',
          xml_mono_mass = 15994915 / 1000000, xml_avge_mass = 159994 / 10000,
          xml_composition = ''O''\<rparr>])
      ''OxidationOrHydroxylation'' mono = Inr (15994915 / 1000000)
   \<and> get_mass (PTMDB_initialize
       [\<lparr>record_id = 1, title = ''Acetyl'', xml_full_name = ''Acetylation'',
          xml_mono_mass = 42010565 / 1000000, xml_avge_mass = 420367 / 10000,
          xml_composition = ''H(2) C(2) O''\<rparr>,
        \<lparr>record_id = 35, title = ''Oxidation'', xml_full_name = ''Oxidation or Hydroxylation'',
          xml_mono_mass = 15994915 / 1000000, xml_avge_mass = 159994 / 10000,
          xml_composition = ''O''\<rparr>])
      ''Phospho'' mono = Inl ModificationNotFoundException"
proof -
  let ?db = "PTMDB_initialize
       [\<lparr>record_id = 1, title = ''Acetyl'', xml_full_name = ''Acetylation'',
          xml_mono_mass = 42010565 / 1000000, xml_avge_mass = 420367 / 10000,
          xml_composition = ''H(2) C(2) O''\<rparr>,
        \<lparr>record_id = 35, title = ''Oxidation'', xml_full_name = ''Oxidation or Hydroxylation'',
          xml_mono_mass = 15994915 / 1000000, xml_avge_mass = 159994 / 10000,
          xml_composition = ''O''\<rparr>]"
  have db: "?db = [\<lparr>mod_id = 1, name = ''Acetyl'', full_name = ''acetylation'',
                    mono_mass = 42010565 / 1000000, avg_mass = 420367 / 10000,
                    composition = ''H(2) C(2) O''\<rparr>,
                  \<lparr>mod_id = 35, name = ''Oxidation'', full_name = ''oxidationorhydroxylation'',
                    mono_mass = 15994915 / 1000000, avg_mass = 159994 / 10000,
                    composition = ''O''\<rparr>]"
    by code_simp
  have lo: "py_lower ''OxidationOrHydroxylation'' = ''oxidationorhydroxylation''"
    "py_lower ''Phospho'' = ''phospho''"
    by code_simp+
  have miss: "\<forall>r \<in> set ?db. name r \<noteq> ''Phospho'' \<and> full_name r \<noteq> py_lower ''Phospho''"
    unfolding db lo by simp
  have nomatch: "\<forall>r \<in> set ?db. name r \<noteq> ''OxidationOrHydroxylation''"
    unfolding db by simp
  have hit: "\<exists>r \<in> set ?db. full_name r = py_lower ''OxidationOrHydroxylation''"
    unfolding db lo by simp
  note t = get_mass_name_then_full_name [of ?db _ mono]
  from t [of "''Phospho''"] miss
  have 1: "get_mass ?db ''Phospho'' mono = Inl ModificationNotFoundException" by blast
  from t [of "''OxidationOrHydroxylation''"] nomatch hit
  obtain r where "r \<in> set ?db" "full_name r = py_lower ''OxidationOrHydroxylation''"
    "get_mass ?db ''OxidationOrHydroxylation'' mono = Inr (get_mass_col mono r)"
    by blast
  then have 2: "get_mass ?db ''OxidationOrHydroxylation'' mono = Inr (15994915 / 1000000)"
    unfolding db lo by (auto simp: get_mass_col_def)
  from 1 2 show ?thesis by blast
qed

text \<open>
  C7, the counterexample: the query \<open>Oxidation or Hydroxylation\<close>, normalized as the
  stored full\_name is (lowercased, spaces removed), equals the stored full\_name of the
  only row, and yet get\_mass raises ModificationNotFoundException.
\<close>

theorem get_mass_spaces_not_removed:
  "full_name (hd (PTMDB_initialize
       [\<lparr>record_id = 35, title = ''Oxidation'', xml_full_name = ''Oxidation or Hydroxylation'',
          xml_mono_mass = 15994915 / 1000000, xml_avge_mass = 159994 / 10000,
          xml_composition = ''O''\<rparr>]))
     = py_lower (remove_spaces ''Oxidation or Hydroxylation'')
   \<and> get_mass (PTMDB_initialize
       [\<lparr>record_id = 35, title = ''Oxidation'', xml_full_name = ''Oxidation or Hydroxylation'',
          xml_mono_mass = 15994915 / 1000000, xml_avge_mass = 159994 / 10000,
          xml_composition = ''O''\<rparr>])
      ''Oxidation or Hydroxylation'' mono = Inl ModificationNotFoundException"
  by code_simp

subsection \<open>get\_formula\<close>

text \<open>The character classes of \<open>formula_regex = (\w+)\(?([0-9-]+)?\)?\<close>.\<close>

definition is_digit :: "char \<Rightarrow> bool" where
  "is_digit c = (let n = of_char c :: nat in 48 \<le> n \<and> n \<le> 57)"

definition is_word_char :: "char \<Rightarrow> bool" where
  "is_word_char c =
     (let n = of_char c :: nat
      in (48 \<le> n \<and> n \<le> 57) \<or> (65 \<le> n \<and> n \<le> 90) \<or> (97 \<le> n \<and> n \<le> 122) \<or> n = 95)"

definition is_count_char :: "char \<Rightarrow> bool" where
  "is_count_char c = (is_digit c \<or> c = CHR ''-'')"

text \<open>\<open>\(?\<close> and \<open>\)?\<close>: an optional literal character at the head of the rest.\<close>

definition skip_optional :: "char \<Rightarrow> string \<Rightarrow> string" where
  "skip_optional x s = (case s of [] \<Rightarrow> [] | c # cs \<Rightarrow> if c = x then cs else s)"

text \<open>
  One match of the regex at a position that holds a word character. Every part after
  \<open>\w+\<close> is optional and greedy, so the first attempt of the matcher succeeds with the
  longest run for each part: the groups are the word and the count characters (empty when
  the group does not take part), and the rest is what follows the match.
\<close>

definition match_groups :: "string \<Rightarrow> string \<times> string" where
  "match_groups s =
     (takeWhile is_word_char s,
      takeWhile is_count_char (skip_optional (CHR ''('') (dropWhile is_word_char s)))"

definition after_match :: "string \<Rightarrow> string" where
  "after_match s =
     skip_optional (CHR '')'')
       (dropWhile is_count_char (skip_optional (CHR ''('') (dropWhile is_word_char s)))"

lemma skip_optional_length: "length (skip_optional x s) \<le> length s"
  by (cases s) (simp_all add: skip_optional_def)

lemma after_match_length: "is_word_char c \<Longrightarrow> length (after_match (c # cs)) \<le> length cs"
proof -
  assume "is_word_char c"
  then have "after_match (c # cs)
     = skip_optional (CHR '')'')
         (dropWhile is_count_char (skip_optional (CHR ''('') (dropWhile is_word_char cs)))"
    by (simp add: after_match_def)
  also have "length \<dots> \<le> length (dropWhile is_count_char
                                 (skip_optional (CHR ''('') (dropWhile is_word_char cs)))"
    by (rule skip_optional_length)
  also have "\<dots> \<le> length (skip_optional (CHR ''('') (dropWhile is_word_char cs))"
    by (rule length_dropWhile_le)
  also have "\<dots> \<le> length (dropWhile is_word_char cs)"
    by (rule skip_optional_length)
  also have "\<dots> \<le> length cs"
    by (rule length_dropWhile_le)
  finally show ?thesis .
qed

text \<open>\<open>formula_regex.findall(comp)\<close>: the matches from left to right, without overlap.\<close>

function formula_findall :: "string \<Rightarrow> (string \<times> string) list" where
  "formula_findall [] = []"
| "formula_findall (c # cs) =
     (if is_word_char c
      then match_groups (c # cs) # formula_findall (after_match (c # cs))
      else formula_findall cs)"
  by pat_completeness auto
termination
  by (relation "measure length") (auto simp: after_match_length le_imp_less_Suc)

text \<open>
  \<open>int(v)\<close> for a string of digits and minus signs: an optional minus sign and at least
  one digit, anything else raises ValueError.
\<close>

definition digit_value :: "char \<Rightarrow> nat" where
  "digit_value c = of_char c - 48"

definition digits_value :: "string \<Rightarrow> nat" where
  "digits_value s = foldl (\<lambda>n c. 10 * n + digit_value c) 0 s"

definition int_literal :: "string \<Rightarrow> bool" where
  "int_literal v =
     (case v of
        [] \<Rightarrow> False
      | c # cs \<Rightarrow> if c = CHR ''-'' then cs \<noteq> [] \<and> list_all is_digit cs
                 else list_all is_digit v)"

definition int_value :: "string \<Rightarrow> int" where
  "int_value v =
     (case v of
        [] \<Rightarrow> 0
      | c # cs \<Rightarrow> if c = CHR ''-'' then - int (digits_value cs) else int (digits_value v))"

definition py_int :: "string \<Rightarrow> error + int" where
  "py_int v = (if int_literal v then Inr (int_value v) else Inl ValueError)"

text \<open>
  \<open>{k: int(v) if v else 1 for k, v in ...}\<close>: the dictionary is an association list in
  insertion order; a key that is already present keeps its place and takes the new value.
\<close>

fun formula_dict :: "(string \<times> string) list \<Rightarrow> (string \<times> int) list \<Rightarrow> error + (string \<times> int) list" where
  "formula_dict [] d = Inr d"
| "formula_dict ((k, v) # kvs) d =
     (if v = [] then formula_dict kvs (AList.update k 1 d)
      else (case py_int v of
              Inl e \<Rightarrow> Inl e
            | Inr n \<Rightarrow> formula_dict kvs (AList.update k n d)))"

definition get_formula :: "mods_row list \<Rightarrow> string \<Rightarrow> error + (string \<times> int) list" where
  "get_formula mods nm =
     (case get_row_by_name mods nm of
        Inl e \<Rightarrow> Inl e
      | Inr res \<Rightarrow> formula_dict (formula_findall (composition res)) [])"



text \<open>
  The composition strings of the specification: tokens separated by single spaces. A token
  is \<open>symbol(count)\<close>, a bare \<open>symbol\<close>, or some other text. A symbol is a non-empty
  word; a count is an integer literal; other text is taken into account here only when it
  holds no word character.
\<close>

datatype token = Counted string string | Bare string | Other string

fun render :: "token \<Rightarrow> string" where
  "render (Counted s c) = s @ ''('' @ c @ '')''"
| "render (Bare s) = s"
| "render (Other j) = j"

fun well_formed :: "token \<Rightarrow> bool" where
  "well_formed (Counted s c) = (s \<noteq> [] \<and> list_all is_word_char s \<and> int_literal c)"
| "well_formed (Bare s) = (s \<noteq> [] \<and> list_all is_word_char s)"
| "well_formed (Other j) = list_all (\<lambda>c. \<not> is_word_char c) j"

fun join_tokens :: "token list \<Rightarrow> string" where
  "join_tokens [] = []"
| "join_tokens [t] = render t"
| "join_tokens (t # u # ts) = render t @ '' '' @ join_tokens (u # ts)"

fun expected_formula :: "token list \<Rightarrow> (string \<times> int) list \<Rightarrow> (string \<times> int) list" where
  "expected_formula [] d = d"
| "expected_formula (Counted s c # ts) d = expected_formula ts (AList.update s (int_value c) d)"
| "expected_formula (Bare s # ts) d = expected_formula ts (AList.update s 1 d)"
| "expected_formula (Other j # ts) d = expected_formula ts d"

lemma char_classes:
  "\<not> is_word_char (CHR '' '')" "\<not> is_count_char (CHR '' '')"
  "\<not> is_word_char (CHR ''('')" "\<not> is_count_char (CHR '')'')"
  by (simp_all add: is_word_char_def is_count_char_def is_digit_def)

lemma findall_skip:
  "list_all (\<lambda>c. \<not> is_word_char c) j \<Longrightarrow> formula_findall (j @ rest) = formula_findall rest"
  by (induction j) simp_all

lemma findall_space: "formula_findall (CHR '' '' # rest) = formula_findall rest"
  by (simp add: char_classes)

lemma takeWhile_all: "list_all P xs \<Longrightarrow> takeWhile P (xs @ ys) = xs @ takeWhile P ys"
  by (induction xs) simp_all

lemma dropWhile_all: "list_all P xs \<Longrightarrow> dropWhile P (xs @ ys) = dropWhile P ys"
  by (induction xs) simp_all

lemma findall_bare:
  assumes "s \<noteq> []" and "list_all is_word_char s" and "rest = [] \<or> hd rest = CHR '' ''"
  shows "formula_findall (s @ rest) = (s, []) # formula_findall rest"
proof -
  from assms(1,2) obtain c cs where s: "s = c # cs" and c: "is_word_char c"
    by (cases s) auto
  from assms(3) have tw: "takeWhile is_word_char rest = []" "dropWhile is_word_char rest = rest"
    by (cases rest; simp add: char_classes)+
  from assms(3) have so: "skip_optional (CHR ''('') rest = rest" "skip_optional (CHR '')'') rest = rest"
    by (cases rest; simp add: skip_optional_def)+
  from assms(3) have tc: "takeWhile is_count_char rest = []" "dropWhile is_count_char rest = rest"
    by (cases rest; simp add: char_classes)+
  have mg: "match_groups (s @ rest) = (s, [])"
    using assms(2) by (simp add: match_groups_def takeWhile_all dropWhile_all tw so tc)
  have am: "after_match (s @ rest) = rest"
    using assms(2) by (simp add: after_match_def dropWhile_all tw so tc)
  have "formula_findall (s @ rest) = match_groups (s @ rest) # formula_findall (after_match (s @ rest))"
    unfolding s using c by simp
  then show ?thesis by (simp only: mg am)
qed

lemma findall_counted:
  assumes "s \<noteq> []" and "list_all is_word_char s" and "list_all is_count_char c"
  shows "formula_findall (s @ ''('' @ c @ '')'' @ rest) = (s, c) # formula_findall rest"
proof -
  from assms(1,2) obtain x xs where s: "s = x # xs" and x: "is_word_char x"
    by (cases s) auto
  let ?tail = "c @ CHR '')'' # rest"
  have dw: "dropWhile is_word_char (s @ CHR ''('' # ?tail) = CHR ''('' # ?tail"
    using assms(2) by (simp add: dropWhile_all char_classes)
  have tw: "takeWhile is_word_char (s @ CHR ''('' # ?tail) = s"
    using assms(2) by (simp add: takeWhile_all char_classes)
  have tc: "takeWhile is_count_char ?tail = c" "dropWhile is_count_char ?tail = CHR '')'' # rest"
    using assms(3) by (simp_all add: takeWhile_all dropWhile_all char_classes)
  have mg: "match_groups (s @ CHR ''('' # ?tail) = (s, c)"
    by (simp only: match_groups_def dw tw) (simp add: skip_optional_def tc)
  have am: "after_match (s @ CHR ''('' # ?tail) = rest"
    by (simp only: after_match_def dw) (simp add: skip_optional_def tc)
  have "formula_findall (s @ CHR ''('' # ?tail)
        = match_groups (s @ CHR ''('' # ?tail) # formula_findall (after_match (s @ CHR ''('' # ?tail))"
    unfolding s using x by simp
  then show ?thesis by (simp only: mg am) simp
qed

lemma int_literal_count_chars: "int_literal c \<Longrightarrow> c \<noteq> [] \<and> list_all is_count_char c"
  by (cases c) (auto simp: int_literal_def is_count_char_def list_all_iff split: if_splits)

lemma findall_token:
  assumes "well_formed t" and "rest = [] \<or> hd rest = CHR '' ''"
  shows "formula_dict (formula_findall (render t @ rest)) d
         = formula_dict (formula_findall rest) (expected_formula [t] d)"
proof (cases t)
  case (Counted s c)
  with assms(1) have wf: "s \<noteq> []" "list_all is_word_char s" "int_literal c" by simp_all
  from int_literal_count_chars [OF wf(3)] have c: "c \<noteq> []" "list_all is_count_char c" by simp_all
  from findall_counted [OF wf(1,2) c(2), of rest] c(1) wf(3) show ?thesis
    unfolding Counted by (simp add: py_int_def)
next
  case (Bare s)
  with assms(1) have wf: "s \<noteq> []" "list_all is_word_char s" by simp_all
  from findall_bare [OF wf assms(2)] show ?thesis unfolding Bare by simp
next
  case (Other j)
  with assms(1) show ?thesis by (simp add: findall_skip)
qed

lemma expected_formula_Cons:
  "expected_formula (t # ts) d = expected_formula ts (expected_formula [t] d)"
  by (cases t) simp_all

lemma formula_of_tokens:
  "list_all well_formed ts \<Longrightarrow>
   formula_dict (formula_findall (join_tokens ts)) d = Inr (expected_formula ts d)"
proof (induction ts arbitrary: d rule: join_tokens.induct)
  case 1
  show ?case by simp
next
  case (2 t)
  then have "well_formed t" by simp
  from findall_token [OF this, of "[]" d] show ?case by simp
next
  case (3 t u ts)
  then have wf: "well_formed t" "list_all well_formed (u # ts)" by simp_all
  have "formula_dict (formula_findall (join_tokens (t # u # ts))) d
        = formula_dict (formula_findall (render t @ CHR '' '' # join_tokens (u # ts))) d"
    by simp
  also have "\<dots> = formula_dict (formula_findall (CHR '' '' # join_tokens (u # ts)))
                     (expected_formula [t] d)"
    by (rule findall_token [OF wf(1)]) simp
  also have "\<dots> = formula_dict (formula_findall (join_tokens (u # ts))) (expected_formula [t] d)"
    by (simp only: findall_space)
  also have "\<dots> = Inr (expected_formula (u # ts) (expected_formula [t] d))"
    by (rule "3.IH" [OF wf(2)])
  also have "\<dots> = Inr (expected_formula (t # u # ts) d)"
    by (simp only: expected_formula_Cons [of t "u # ts"])
  finally show ?case .
qed

text \<open>
  C8, as amended. For a modification whose composition is a space-separated sequence of
  tokens, each a \<open>symbol(count)\<close> with an integer literal as count, a bare \<open>symbol\<close>, or
  text without word characters, get\_formula returns the dictionary that maps each symbol
  to its count and each bare symbol to 1 (a later token of a symbol replaces its value),
  and no exception is raised. The composition \<open>H(2) C(1) O(1)\<close> gives
  \<open>{H: 2, C: 1, O: 1}\<close>.
\<close>

theorem get_formula_tokens:
  assumes "get_row_by_name mods nm = Inr res"
    and "composition res = join_tokens ts"
    and "list_all well_formed ts"
  shows "get_formula mods nm = Inr (expected_formula ts [])
       \<and> formula_dict (formula_findall ''H(2) C(1) O(1)'') [] = Inr [(''H'', 2), (''C'', 1), (''O'', 1)]"
proof -
  have "formula_dict (formula_findall ''H(2) C(1) O(1)'') [] = Inr [(''H'', 2), (''C'', 1), (''O'', 1)]"
    by code_simp
  with assms formula_of_tokens [of ts "[]"] show ?thesis by (simp add: get_formula_def)
qed

theorem get_formula_tokens_witness:
  "get_formula [\<lparr>mod_id = 7, name = ''Label'', full_name = ''label'', mono_mass = 1, avg_mass = 1,
                 composition = ''H(-2) N + 13C(6) H(7)''\<rparr>] ''Label''
     = Inr [(''H'', 7), (''N'', 1), (''13C'', 6)]"
proof -
  let ?res = "\<lparr>mod_id = 7, name = ''Label'', full_name = ''label'', mono_mass = 1, avg_mass = 1,
                 composition = ''H(-2) N + 13C(6) H(7)''\<rparr> :: mods_row"
  let ?ts = "[Counted ''H'' ''-2'', Bare ''N'', Other ''+'', Counted ''13C'' ''6'',
              Counted ''H'' ''7'']"
  have h1: "get_row_by_name [?res] ''Label'' = Inr ?res"
    by (simp add: get_row_by_name_def)
  have h2: "composition ?res = join_tokens ?ts" by simp
  have h3: "list_all well_formed ?ts" by code_simp
  have v: "expected_formula ?ts [] = [(''H'', 7), (''N'', 1), (''13C'', 6)]" by code_simp
  from get_formula_tokens [OF h1 h2 h3] show ?thesis unfolding v by blast
qed

text \<open>
  C8, the counterexample: in \<open>H(2) C(-)\<close> the second token has neither form; the regex
  takes \<open>-\<close> as its count group and \<open>int\<close> raises ValueError.
\<close>

theorem get_formula_raises_on_bad_count:
  "get_formula [\<lparr>mod_id = 1, name = ''X'', full_name = ''x'', mono_mass = 1, avg_mass = 1,
                 composition = ''H(2) C(-)''\<rparr>] ''X'' = Inl ValueError"
  by code_simp

end
